theory Spec2Isabelle
  imports Main "HOL-Library.Word" "HOL-Library.AList"
begin

section \<open>Binary images and the project\<close>

text \<open>
  Addresses are Python integers, hence \<open>int\<close>. The module-level constant of
  \<^verbatim>\<open>project.py\<close>.
\<close>

definition granularity :: int where
  "granularity = 0x1000000"

text \<open>
  Modelled from the spec: class \<^verbatim>\<open>Binary\<close> (module \<^verbatim>\<open>.binary\<close>) is not among the
  sources. An image has an address range, declared dependency names, an export table
  whose address lookup may fail, an import table with patch sites, and a byte store.
  \<open>bin_symbol_addr b e = None\<close> stands for \<^verbatim>\<open>get_symbol_addr(e)\<close> raising.
  \<open>bin_resolved\<close> is what \<^verbatim>\<open>resolve_import\<close> has patched so far.
\<close>

record binary =
  bin_filename :: string
  bin_min :: int
  bin_max :: int
  bin_entry :: int
  bin_lib_names :: "string list"
  bin_exports :: "(string \<times> string) list"
  bin_symbol_addr :: "string \<rightharpoonup> int"
  bin_imports :: "(string \<times> int list) list"
  bin_import_addrs :: "string \<Rightarrow> int list"
  bin_resolved :: "string \<rightharpoonup> int"
  ida_mem :: "int \<rightharpoonup> 8 word"

text \<open>
  Modelled from the spec: \<^verbatim>\<open>Binary.rebase(delta)\<close> shifts the image's address range
  by a fixed delta.
\<close>

definition rebase :: "int \<Rightarrow> binary \<Rightarrow> binary" where
  "rebase delta b = b\<lparr>bin_min := bin_min b + delta, bin_max := bin_max b + delta\<rparr>"

text \<open>
  Modelled from the spec: \<^verbatim>\<open>Binary.resolve_import(name, address)\<close> patches the
  import to the address.
\<close>

definition resolve_import :: "string \<Rightarrow> int \<Rightarrow> binary \<Rightarrow> binary" where
  "resolve_import imp addr b = b\<lparr>bin_resolved := (bin_resolved b)(imp \<mapsto> addr)\<rparr>"

datatype warning =
    LibNotLoaded string
  | ExportAddrFailed string string string
  | ImportUnresolved string string
  | BlockFailed int

datatype error = KeyError | StructError

text \<open>
  The fields of \<^verbatim>\<open>Project\<close> the operations below use. \<open>binaries\<close> is the dict
  from file name to image, kept as an association list (the list order stands for
  the dict's iteration order); \<open>warnings\<close> collects the calls of \<^verbatim>\<open>l.warning\<close>.
\<close>

record 'sp project =
  binaries :: "(string \<times> binary) list"
  filename :: string
  min_addr :: int
  max_addr :: int
  entry :: int
  sim_procedures :: "int \<rightharpoonup> 'sp"
  warnings :: "warning list"

section \<open>Address-space builder\<close>

definition find_delta :: "'sp project \<Rightarrow> binary \<Rightarrow> int" where
  "find_delta p lib =
     (let min_addr_bin = bin_min lib;
          start_offset = min_addr_bin mod granularity;
          new_start_bin = granularity * ((max_addr p + granularity) div granularity) + start_offset;
          delta = new_start_bin - min_addr_bin
      in delta)"

text \<open>
  The state of the loop of \<^verbatim>\<open>load_libs\<close>: the two sets of names, the project, and
  the sequence of images constructed and rebased so far (name and rebased image, in
  order of placement). \<open>remaining_libs\<close> is a Python set, kept as a list;
  \<^verbatim>\<open>set.pop()\<close> removes an arbitrary element, chosen here by the parameter
  \<open>pick\<close>, over which every theorem quantifies.
\<close>

record 'sp loader =
  remaining_libs :: "string list"
  done_libs :: "string set"
  placed :: "(string \<times> binary) list"
  proj :: "'sp project"

definition set_pop :: "(string list \<Rightarrow> nat) \<Rightarrow> string list \<Rightarrow> string" where
  "set_pop pick xs = xs ! (pick xs mod length xs)"

text \<open>
  One iteration of the loop body. The directory \<open>fs\<close> maps a file name to the image
  the loader builds from it; \<^verbatim>\<open>os.path.exists\<close> is membership in its domain.
\<close>

definition load_step ::
  "(string list \<Rightarrow> nat) \<Rightarrow> (string \<times> binary) list \<Rightarrow> 'sp loader \<Rightarrow> 'sp loader" where
  "load_step pick fs s =
     (let lib = set_pop pick (remaining_libs s);
          rest = removeAll lib (remaining_libs s)
      in case map_of fs lib of
           Some fresh \<Rightarrow>
             if lib \<notin> done_libs s then
               let p = proj s;
                   delta = find_delta p fresh;
                   new_lib = rebase delta fresh
               in s\<lparr>remaining_libs := List.union rest (bin_lib_names new_lib),
                    done_libs := insert lib (done_libs s),
                    placed := placed s @ [(lib, new_lib)],
                    proj := p\<lparr>binaries := AList.update lib new_lib (binaries p),
                               min_addr := min (min_addr p) (bin_min new_lib),
                               max_addr := max (max_addr p) (bin_max new_lib)\<rparr>\<rparr>
             else s\<lparr>remaining_libs := rest\<rparr>
         | None \<Rightarrow> s\<lparr>remaining_libs := rest\<rparr>)"

function load_loop ::
  "(string list \<Rightarrow> nat) \<Rightarrow> (string \<times> binary) list \<Rightarrow> 'sp loader \<Rightarrow> 'sp loader" where
  "load_loop pick fs s =
     (if remaining_libs s = [] then s else load_loop pick fs (load_step pick fs s))"
  by pat_completeness auto

termination
proof (relation "measures [\<lambda>(pick, fs, s). card (fst ` set fs - done_libs s),
                           \<lambda>(pick, fs, s). length (remaining_libs s)]")
  show "wf (measures [\<lambda>(pick, fs, s). card (fst ` set fs - done_libs s),
                      \<lambda>(pick, fs, s :: 'a loader). length (remaining_libs s)])"
    by simp
next
  fix pick :: "string list \<Rightarrow> nat" and fs :: "(string \<times> binary) list" and s :: "'a loader"
  assume ne: "remaining_libs s \<noteq> []"
  let ?lib = "set_pop pick (remaining_libs s)"
  have inrem: "?lib \<in> set (remaining_libs s)"
    using ne by (simp add: set_pop_def)
  have shorter: "length (removeAll ?lib (remaining_libs s)) < length (remaining_libs s)"
    using inrem by (rule length_removeAll_less)
  show "((pick, fs, load_step pick fs s), (pick, fs, s))
        \<in> measures [\<lambda>(pick, fs, s). card (fst ` set fs - done_libs s),
                      \<lambda>(pick, fs, s). length (remaining_libs s)]"
  proof (cases "map_of fs ?lib")
    case None
    then show ?thesis using shorter by (simp add: load_step_def Let_def)
  next
    case (Some fresh)
    show ?thesis
    proof (cases "?lib \<in> done_libs s")
      case True
      then show ?thesis using Some shorter by (simp add: load_step_def Let_def)
    next
      case False
      have "?lib \<in> fst ` set fs"
        using Some by (metis map_of_SomeD fst_conv image_eqI)
      then have "fst ` set fs - insert ?lib (done_libs s) \<subset> fst ` set fs - done_libs s"
        using False by blast
      then have "card (fst ` set fs - insert ?lib (done_libs s)) < card (fst ` set fs - done_libs s)"
        by (intro psubset_card_mono) simp_all
      then show ?thesis using Some False by (simp add: load_step_def Let_def)
    qed
  qed
qed

declare load_loop.simps [simp del]

text \<open>
  \<^verbatim>\<open>Project.__init__\<close> up to the call of \<^verbatim>\<open>load_libs\<close>: the main image alone.
\<close>

definition init_project :: "string \<Rightarrow> binary \<Rightarrow> 'sp project" where
  "init_project fname main =
     \<lparr>binaries = [(fname, main)], filename = fname,
      min_addr = bin_min main, max_addr = bin_max main, entry = bin_entry main,
      sim_procedures = Map.empty, warnings = []\<rparr>"

definition load_libs ::
  "(string list \<Rightarrow> nat) \<Rightarrow> (string \<times> binary) list \<Rightarrow> 'sp project \<Rightarrow> error + 'sp loader" where
  "load_libs pick fs p =
     (case map_of (binaries p) (filename p) of
        None \<Rightarrow> Inl KeyError
      | Some main \<Rightarrow>
          Inr (load_loop pick fs
                 \<lparr>remaining_libs = remdups (bin_lib_names main), done_libs = {},
                  placed = [], proj = p\<rparr>))"

text \<open>
  The dependencies a main image references transitively through files that exist
  in the directory: the reading of "transitively-referenced dependency whose file
  exists" against which the loop is checked.
\<close>

inductive_set reachable_libs :: "(string \<times> binary) list \<Rightarrow> string list \<Rightarrow> string set"
  for fs :: "(string \<times> binary) list" and roots :: "string list" where
  root: "n \<in> set roots \<Longrightarrow> map_of fs n = Some b \<Longrightarrow> n \<in> reachable_libs fs roots"
| dep: "m \<in> reachable_libs fs roots \<Longrightarrow> map_of fs m = Some b \<Longrightarrow>
        n \<in> set (bin_lib_names b) \<Longrightarrow> map_of fs n = Some b' \<Longrightarrow> n \<in> reachable_libs fs roots"

text \<open>Two images, in placement order: the later one lies wholly above the earlier.\<close>

definition placed_above :: "string \<times> binary \<Rightarrow> string \<times> binary \<Rightarrow> bool" where
  "placed_above A B \<longleftrightarrow>
     bin_max (snd A) < bin_min (snd B) \<and>
     {bin_min (snd A) .. bin_max (snd A)} \<inter> {bin_min (snd B) .. bin_max (snd B)} = {}"

text \<open>The invariant of the dependency loop against \<open>reachable_libs\<close>.\<close>

definition closure_inv :: "(string \<times> binary) list \<Rightarrow> string list \<Rightarrow> 'sp loader \<Rightarrow> bool" where
  "closure_inv fs roots s \<longleftrightarrow>
     done_libs s \<subseteq> reachable_libs fs roots \<and>
     (\<forall>n\<in>set (remaining_libs s). map_of fs n \<noteq> None \<longrightarrow> n \<in> reachable_libs fs roots) \<and>
     (\<forall>n\<in>set roots. map_of fs n \<noteq> None \<longrightarrow> n \<in> done_libs s \<union> set (remaining_libs s)) \<and>
     (\<forall>m\<in>done_libs s. \<forall>b. map_of fs m = Some b \<longrightarrow>
        (\<forall>n\<in>set (bin_lib_names b). map_of fs n \<noteq> None \<longrightarrow>
           n \<in> done_libs s \<union> set (remaining_libs s))) \<and>
     set (map fst (placed s)) = done_libs s \<and>
     distinct (map fst (placed s))"

text \<open>
  What the loop has stored: every image placed so far is the image of its file, rebased
  by the delta of \<^verbatim>\<open>find_delta\<close> for the envelope of that moment, and is the entry of the
  project's dict under its name; every other name has the entry it had in the project
  \<open>p0\<close> the loop started from, and the envelope has only grown.
\<close>

definition placed_from ::
  "(string \<times> binary) list \<Rightarrow> 'sp project \<Rightarrow> 'sp project \<Rightarrow> string \<times> binary \<Rightarrow> bool" where
  "placed_from fs p0 p x \<longleftrightarrow>
     (\<exists>fresh (q :: 'sp project).
        map_of fs (fst x) = Some fresh \<and> snd x = rebase (find_delta q fresh) fresh \<and>
        max_addr p0 \<le> max_addr q \<and> max_addr q \<le> max_addr p)"

definition stored_inv :: "(string \<times> binary) list \<Rightarrow> 'sp project \<Rightarrow> 'sp loader \<Rightarrow> bool" where
  "stored_inv fs p0 s \<longleftrightarrow>
     (\<forall>x\<in>set (placed s).
        map_of (binaries (proj s)) (fst x) = Some (snd x) \<and> placed_from fs p0 (proj s) x) \<and>
     (\<forall>n. n \<notin> done_libs s \<longrightarrow> map_of (binaries (proj s)) n = map_of (binaries p0) n) \<and>
     max_addr p0 \<le> max_addr (proj s)"

text \<open>A concrete directory: two libraries that depend on each other, and a missing one.\<close>

definition example_binary :: "string \<Rightarrow> int \<Rightarrow> int \<Rightarrow> string list \<Rightarrow> binary" where
  "example_binary n lo hi libs =
     \<lparr>bin_filename = n, bin_min = lo, bin_max = hi, bin_entry = lo, bin_lib_names = libs,
      bin_exports = [], bin_symbol_addr = Map.empty, bin_imports = [],
      bin_import_addrs = (\<lambda>f. []), bin_resolved = Map.empty, ida_mem = Map.empty\<rparr>"

definition first_pick :: "string list \<Rightarrow> nat" where
  "first_pick xs = 0"

definition demo_main :: binary where
  "demo_main = example_binary ''main'' 0x400000 0x400fff [''liba'', ''libmissing'']"

definition demo_fs :: "(string \<times> binary) list" where
  "demo_fs = [(''liba'', example_binary ''liba'' 0 0x1000004 [''libb'']),
              (''libb'', example_binary ''libb'' 0 0x10 [''liba''])]"

definition demo_proj :: "unit project" where
  "demo_proj = init_project ''main'' demo_main"

definition demo_loaded :: "unit loader" where
  "demo_loaded = load_loop first_pick demo_fs
     \<lparr>remaining_libs = remdups (bin_lib_names demo_main), done_libs = {}, placed = [],
      proj = demo_proj\<rparr>"

text \<open>A main image that ends one byte below a multiple of \<open>granularity\<close>, and one library.\<close>

definition tight_main :: binary where
  "tight_main = example_binary ''main'' 0x1000000 0x1ffffff [''libc'']"

definition tight_fs :: "(string \<times> binary) list" where
  "tight_fs = [(''libc'', example_binary ''libc'' 0 0x10 [])]"

definition tight_proj :: "unit project" where
  "tight_proj = init_project ''main'' tight_main"

section \<open>Stub address allocator\<close>

text \<open>
  \<^verbatim>\<open>struct.unpack("<Q", s)[0]\<close>: the unsigned little-endian value of exactly eight
  bytes; any other length raises \<^verbatim>\<open>struct.error\<close>.
\<close>

definition unpack_le64 :: "8 word list \<Rightarrow> error + int" where
  "unpack_le64 bs =
     (if length bs = 8 then Inr (foldr (\<lambda>b acc. uint b + 256 * acc) bs 0)
      else Inl StructError)"

text \<open>
  \<^verbatim>\<open>set_sim_procedure\<close>. The digest function of the \<^verbatim>\<open>md5\<close> module is a parameter.
  The image is the object the caller holds; its byte store is written in place, so the
  updated image is returned beside the project.
\<close>

definition set_sim_procedure ::
  "(string \<Rightarrow> 8 word list) \<Rightarrow> 'sp project \<Rightarrow> binary \<Rightarrow> string \<Rightarrow> string \<Rightarrow> 'sp
   \<Rightarrow> error + ('sp project \<times> binary)" where
  "set_sim_procedure md5 p binary lib func_name sim_proc =
     (let plt_addrs = bin_import_addrs binary func_name;
          hashed_bytes = take 8 (md5 (lib @ ''_'' @ func_name))
      in case unpack_le64 hashed_bytes of
           Inl e \<Rightarrow> Inl e
         | Inr pseudo_addr \<Rightarrow>
             Inr (p\<lparr>sim_procedures := (sim_procedures p)(pseudo_addr \<mapsto> sim_proc)\<rparr>,
                  binary\<lparr>ida_mem :=
                    fold (\<lambda>addr m. fold (\<lambda>(n, b) m. m(addr + int n \<mapsto> b))
                                        (enumerate 0 hashed_bytes) m)
                         plt_addrs (ida_mem binary)\<rparr>))"

text \<open>The inner loop of \<^verbatim>\<open>resolve_imports_using_sim_procedures\<close>, over the imports.\<close>

fun stub_imports ::
  "(string \<Rightarrow> 8 word list) \<Rightarrow> (string \<rightharpoonup> 'sp) \<Rightarrow> string \<Rightarrow> string list
   \<Rightarrow> 'sp project \<times> binary \<Rightarrow> error + ('sp project \<times> binary)" where
  "stub_imports md5 functions lib_name [] st = Inr st"
| "stub_imports md5 functions lib_name (imp # imps) (p, binary) =
     (case functions imp of
        None \<Rightarrow> stub_imports md5 functions lib_name imps (p, binary)
      | Some sim_proc \<Rightarrow>
          (case set_sim_procedure md5 p binary lib_name imp sim_proc of
             Inl e \<Rightarrow> Inl e
           | Inr st' \<Rightarrow> stub_imports md5 functions lib_name imps st'))"

text \<open>The outer loop, over the library names the main image declares.\<close>

fun stub_libs ::
  "(string \<Rightarrow> 8 word list) \<Rightarrow> (string \<rightharpoonup> (string \<rightharpoonup> 'sp)) \<Rightarrow> string list
   \<Rightarrow> 'sp project \<times> binary \<Rightarrow> error + ('sp project \<times> binary)" where
  "stub_libs md5 sims [] st = Inr st"
| "stub_libs md5 sims (lib_name # rest) (p, binary) =
     (case sims lib_name of
        None \<Rightarrow> stub_libs md5 sims rest (p, binary)
      | Some functions \<Rightarrow>
          (case stub_imports md5 functions lib_name (map fst (bin_imports binary)) (p, binary) of
             Inl e \<Rightarrow> Inl e
           | Inr st' \<Rightarrow> stub_libs md5 sims rest st'))"

text \<open>
  \<^verbatim>\<open>resolve_imports_using_sim_procedures\<close>; \<open>sims\<close> is the table
  \<^verbatim>\<open>simuvex.procedures.SimProcedures\<close>. The image written to is the object stored under
  the main file name, so the result is stored back under that key.
\<close>

definition resolve_imports_using_sim_procedures ::
  "(string \<Rightarrow> 8 word list) \<Rightarrow> (string \<rightharpoonup> (string \<rightharpoonup> 'sp)) \<Rightarrow> 'sp project
   \<Rightarrow> error + 'sp project" where
  "resolve_imports_using_sim_procedures md5 sims p =
     (let binary_name = filename p
      in case map_of (binaries p) binary_name of
           None \<Rightarrow> Inl KeyError
         | Some binary \<Rightarrow>
             (case stub_libs md5 sims (bin_lib_names binary) (p, binary) of
                Inl e \<Rightarrow> Inl e
              | Inr (p', binary') \<Rightarrow>
                  Inr (p'\<lparr>binaries := AList.update binary_name binary' (binaries p')\<rparr>)))"

text \<open>
  The pseudo-address in the spec's words: the first eight bytes of the digest of
  \<open>library_function\<close>, read as an unsigned little-endian integer.
\<close>

definition pseudo_address :: "(string \<Rightarrow> 8 word list) \<Rightarrow> string \<Rightarrow> string \<Rightarrow> int" where
  "pseudo_address md5 lib func =
     (\<Sum>i<8. uint (md5 (lib @ ''_'' @ func) ! i) * 256 ^ i)"

definition demo_digest :: "string \<Rightarrow> 8 word list" where
  "demo_digest s = map (\<lambda>i. of_nat (length s + i)) [0 ..< 16]"

text \<open>What a run of the stub loops may change: the handler table at the keys \<open>K\<close>, and
  the byte store of the image in hand.\<close>

definition stub_frame :: "int set \<Rightarrow> 'sp project \<times> binary \<Rightarrow> 'sp project \<times> binary \<Rightarrow> bool" where
  "stub_frame K st st' \<longleftrightarrow>
     binaries (fst st') = binaries (fst st) \<and>
     filename (fst st') = filename (fst st) \<and>
     bin_imports (snd st') = bin_imports (snd st) \<and>
     bin_lib_names (snd st') = bin_lib_names (snd st) \<and>
     bin_resolved (snd st') = bin_resolved (snd st) \<and>
     (\<forall>a. a \<notin> K \<longrightarrow> sim_procedures (fst st') a = sim_procedures (fst st) a)"

definition stub_main :: binary where
  "stub_main = (example_binary ''main'' 0x400000 0x601fff [''libc''])
     \<lparr>bin_imports := [(''puts'', [0x601018])],
      bin_import_addrs := (\<lambda>f. if f = ''puts'' then [0x601018] else [])\<rparr>"

definition stub_libc :: binary where
  "stub_libc = (example_binary ''libc'' 0x1000000 0x11fffff [])
     \<lparr>bin_imports := [(''write'', [0x11f0000])],
      bin_import_addrs := (\<lambda>f. if f = ''write'' then [0x11f0000] else [])\<rparr>"

definition stub_proj :: "unit project" where
  "stub_proj = (init_project ''main'' stub_main)
     \<lparr>binaries := [(''main'', stub_main), (''libc'', stub_libc)]\<rparr>"

definition stub_sims :: "string \<rightharpoonup> (string \<rightharpoonup> unit)" where
  "stub_sims = [''libc'' \<mapsto> [''puts'' \<mapsto> (), ''write'' \<mapsto> ()]]"

section \<open>Symbol resolver\<close>

text \<open>
  The body of the loop over \<^verbatim>\<open>lib.get_exports()\<close>: \<open>rw\<close> is the dict \<^verbatim>\<open>resolved\<close>
  with the warnings logged so far.
\<close>

definition add_export ::
  "binary \<Rightarrow> string \<Rightarrow> string \<times> string \<Rightarrow> (string \<rightharpoonup> int) \<times> warning list
   \<Rightarrow> (string \<rightharpoonup> int) \<times> warning list" where
  "add_export lib lib_name e rw =
     (case bin_symbol_addr lib (fst e) of
        Some a \<Rightarrow> ((fst rw)(fst e \<mapsto> a), snd rw)
      | None \<Rightarrow> (fst rw, snd rw @ [ExportAddrFailed (fst e) (snd e) lib_name]))"

text \<open>The body of the loop over \<^verbatim>\<open>b.get_lib_names()\<close>.\<close>

definition add_lib ::
  "(string \<times> binary) list \<Rightarrow> string \<Rightarrow> (string \<rightharpoonup> int) \<times> warning list
   \<Rightarrow> (string \<rightharpoonup> int) \<times> warning list" where
  "add_lib bins lib_name rw =
     (case map_of bins lib_name of
        None \<Rightarrow> (fst rw, snd rw @ [LibNotLoaded lib_name])
      | Some lib \<Rightarrow> fold (add_export lib lib_name) (bin_exports lib) rw)"

text \<open>The body of the loop over \<^verbatim>\<open>b.get_imports()\<close>.\<close>

definition patch_import ::
  "(string \<rightharpoonup> int) \<Rightarrow> string \<times> int list \<Rightarrow> binary \<times> warning list
   \<Rightarrow> binary \<times> warning list" where
  "patch_import resolved i bw =
     (case resolved (fst i) of
        Some a \<Rightarrow> (resolve_import (fst i) a (fst bw), snd bw)
      | None \<Rightarrow> (fst bw, snd bw @ [ImportUnresolved (fst i) (bin_filename (fst bw))]))"

text \<open>The body of the outer loop, for one image \<open>b\<close>.\<close>

definition resolve_binary ::
  "(string \<times> binary) list \<Rightarrow> binary \<Rightarrow> warning list \<Rightarrow> binary \<times> warning list" where
  "resolve_binary bins b w =
     (let rw = fold (add_lib bins) (bin_lib_names b) (Map.empty, w)
      in fold (patch_import (fst rw)) (bin_imports b) (b, snd rw))"

definition resolve_one :: "string \<Rightarrow> 'sp project \<Rightarrow> 'sp project" where
  "resolve_one name p =
     (case map_of (binaries p) name of
        None \<Rightarrow> p
      | Some b \<Rightarrow>
          let bw = resolve_binary (binaries p) b (warnings p)
          in p\<lparr>binaries := AList.update name (fst bw) (binaries p), warnings := snd bw\<rparr>)"

text \<open>
  \<^verbatim>\<open>resolve_imports_from_libs\<close>: the images are visited in the order of the dict; each
  is patched in place, so later iterations look libraries up in the updated dict.
\<close>

definition resolve_imports_from_libs :: "'sp project \<Rightarrow> 'sp project" where
  "resolve_imports_from_libs p = fold resolve_one (map fst (binaries p)) p"

text \<open>
  Some declared and loaded dependency of \<open>b\<close> exports \<open>imp\<close>, and its address lookup
  gives \<open>a\<close>.
\<close>

definition provides :: "(string \<times> binary) list \<Rightarrow> binary \<Rightarrow> string \<Rightarrow> int \<Rightarrow> bool" where
  "provides bins b imp a \<longleftrightarrow>
     (\<exists>ln\<in>set (bin_lib_names b). \<exists>lib. map_of bins ln = Some lib \<and>
        imp \<in> fst ` set (bin_exports lib) \<and> bin_symbol_addr lib imp = Some a)"

text \<open>Two images that differ at most in what has been patched.\<close>

definition same_tables :: "binary \<Rightarrow> binary \<Rightarrow> bool" where
  "same_tables b b' \<longleftrightarrow>
     bin_filename b' = bin_filename b \<and> bin_lib_names b' = bin_lib_names b \<and>
     bin_exports b' = bin_exports b \<and> bin_symbol_addr b' = bin_symbol_addr b \<and>
     bin_imports b' = bin_imports b"

definition res_main :: binary where
  "res_main = (example_binary ''main'' 0x400000 0x601fff [''libc'', ''libgone''])
     \<lparr>bin_imports := [(''puts'', [0x601018]), (''missing_fn'', [0x601020]), (''broken'', [])]\<rparr>"

definition res_libc :: binary where
  "res_libc = (example_binary ''libc'' 0x1000000 0x11fffff [])
     \<lparr>bin_exports := [(''puts'', ''func''), (''broken'', ''func'')],
      bin_symbol_addr := [''puts'' \<mapsto> 0x1001234]\<rparr>"

definition res_proj :: "unit project" where
  "res_proj = (init_project ''main'' res_main)
     \<lparr>binaries := [(''main'', res_main), (''libc'', res_libc)]\<rparr>"

text \<open>Two dicts whose images differ at most in what has been patched.\<close>

definition bins_related :: "(string \<times> binary) list \<Rightarrow> (string \<times> binary) list \<Rightarrow> bool" where
  "bins_related bins bins' \<longleftrightarrow> (\<forall>m. rel_option same_tables (map_of bins m) (map_of bins' m))"

unbundle bit_operations_syntax

section \<open>Reference crawler\<close>

text \<open>
  One access reported by the execution engine: the target address (\<open>None\<close> when
  \<^verbatim>\<open>r.addr.is_symbolic()\<close>, otherwise \<^verbatim>\<open>r.addr.any()\<close>), the instruction address
  \<^verbatim>\<open>r.inst_addr\<close> and the size \<^verbatim>\<open>r.size\<close> in bits.
\<close>

record ref =
  ref_addr :: "int option"
  ref_inst :: int
  ref_size :: int

text \<open>
  What \<^verbatim>\<open>sim_block\<close> returns: the accesses of \<^verbatim>\<open>s.refs()\<close> by kind, and \<^verbatim>\<open>s.state\<close>.
  The function itself, which lifts and executes a block with the external engine, is a
  parameter \<open>sim_block\<close> of the crawl, with \<open>None\<close> for a raised \<^verbatim>\<open>SimIRSBError\<close> or
  \<^verbatim>\<open>AngrException\<close>, the two exceptions \<^verbatim>\<open>make_refs\<close> catches.
\<close>

record 'st sim_irsb =
  mem_reads :: "ref list"
  mem_writes :: "ref list"
  code_refs :: "ref list"
  mem_refs :: "ref list"
  out_state :: 'st

text \<open>A value stored in a reference table: a bare address, or an (address, size) pair.\<close>

datatype entry = Addr int | Sized int int

type_synonym table = "int \<rightharpoonup> entry list"

text \<open>\<^verbatim>\<open>d[k].append(v)\<close> on a \<^verbatim>\<open>defaultdict(list)\<close>.\<close>

definition dd_append :: "table \<Rightarrow> int \<Rightarrow> entry \<Rightarrow> table" where
  "dd_append d k v = d(k \<mapsto> (case d k of None \<Rightarrow> [] | Some l \<Rightarrow> l) @ [v])"

text \<open>
  The local variables of \<^verbatim>\<open>make_refs\<close>. \<open>analyzed\<close> records the addresses handed to
  \<^verbatim>\<open>sim_block\<close>, in order; \<open>crawl_warnings\<close> the calls of \<^verbatim>\<open>l.warning\<close>.
\<close>

record 'st crawl =
  remaining_addrs :: "(int \<times> 'st) list"
  sim_blocks :: "int set"
  data_reads_to :: table
  data_reads_from :: table
  data_writes_to :: table
  data_writes_from :: table
  code_refs_to :: table
  code_refs_from :: table
  memory_refs_from :: table
  memory_refs_to :: table
  analyzed :: "int list"
  crawl_warnings :: "warning list"

definition init_crawl :: "int \<Rightarrow> 'st \<Rightarrow> 'st crawl" where
  "init_crawl entry_addr st0 =
     \<lparr>remaining_addrs = [(entry_addr, st0)], sim_blocks = {},
      data_reads_to = Map.empty, data_reads_from = Map.empty,
      data_writes_to = Map.empty, data_writes_from = Map.empty,
      code_refs_to = Map.empty, code_refs_from = Map.empty,
      memory_refs_from = Map.empty, memory_refs_to = Map.empty,
      analyzed = [], crawl_warnings = []\<rparr>"

text \<open>The body of the loop over \<^verbatim>\<open>s.refs()[simuvex.SimMemRead]\<close>.\<close>

definition track_read :: "ref \<Rightarrow> 'st crawl \<Rightarrow> 'st crawl" where
  "track_read r c =
     (case ref_addr r of
        None \<Rightarrow> c
      | Some val_to \<Rightarrow>
          let val_from = ref_inst r;
              c1 = c\<lparr>data_reads_from :=
                       dd_append (data_reads_from c) val_from (Sized val_to (ref_size r div 8))\<rparr>
          in c1\<lparr>data_reads_to :=
                  fold (\<lambda>i d. dd_append d i (Addr val_from))
                       [val_to .. val_to + ref_size r div 8 - 1] (data_reads_to c1)\<rparr>)"

text \<open>The body of the loop over \<^verbatim>\<open>s.refs()[simuvex.SimMemWrite]\<close>, as written.\<close>

definition track_write :: "ref \<Rightarrow> 'st crawl \<Rightarrow> 'st crawl" where
  "track_write r c =
     (case ref_addr r of
        None \<Rightarrow> c
      | Some val_to \<Rightarrow>
          let val_from = ref_inst r;
              c1 = c\<lparr>data_writes_to :=
                       dd_append (data_writes_to c) val_to (Sized val_from (ref_size r div 8))\<rparr>
          in c1\<lparr>data_writes_to :=
                  fold (\<lambda>i d. dd_append d i (Addr val_from))
                       [val_to .. val_to + ref_size r div 8 - 1] (data_writes_to c1)\<rparr>)"

text \<open>The body of the loop over \<^verbatim>\<open>s.refs()[simuvex.SimCodeRef]\<close>.\<close>

definition track_code :: "'st \<Rightarrow> ref \<Rightarrow> 'st crawl \<Rightarrow> 'st crawl" where
  "track_code st r c =
     (case ref_addr r of
        None \<Rightarrow> c
      | Some val_to \<Rightarrow>
          let val_from = ref_inst r;
              c1 = c\<lparr>code_refs_to := dd_append (code_refs_to c) val_to (Addr val_from),
                     code_refs_from := dd_append (code_refs_from c) val_from (Addr val_to)\<rparr>
          in if val_to \<notin> sim_blocks c1
             then c1\<lparr>remaining_addrs := remaining_addrs c1 @ [(val_to, st)],
                     sim_blocks := insert val_to (sim_blocks c1)\<rparr>
             else c1)"

text \<open>
  The body of the loop over \<^verbatim>\<open>s.refs()[simuvex.SimMemRef]\<close>; \<open>perm\<close> is the pulled
  permission view \<^verbatim>\<open>self.perm\<close>.
\<close>

definition track_memref :: "(int \<rightharpoonup> int) \<Rightarrow> 'st \<Rightarrow> ref \<Rightarrow> 'st crawl \<Rightarrow> 'st crawl" where
  "track_memref perm st r c =
     (case ref_addr r of
        None \<Rightarrow> c
      | Some val_to \<Rightarrow>
          let val_from = ref_inst r;
              c1 = c\<lparr>memory_refs_to := dd_append (memory_refs_to c) val_to (Addr val_from),
                     memory_refs_from := dd_append (memory_refs_from c) val_from (Addr val_to)\<rparr>
          in case perm val_to of
               Some flags \<Rightarrow>
                 if val_to \<notin> sim_blocks c1 \<and> flags AND 1 \<noteq> 0
                 then c1\<lparr>remaining_addrs := remaining_addrs c1 @ [(val_to, st)],
                         sim_blocks := insert val_to (sim_blocks c1)\<rparr>
                 else c1
             | None \<Rightarrow> c1)"

text \<open>One iteration of the \<^verbatim>\<open>while\<close> loop; the identity once the worklist is empty.\<close>

definition crawl_step ::
  "(int \<Rightarrow> 'st \<Rightarrow> 'st sim_irsb option) \<Rightarrow> (int \<rightharpoonup> int) \<Rightarrow> 'st crawl \<Rightarrow> 'st crawl" where
  "crawl_step sim_block perm c =
     (if remaining_addrs c = [] then c
      else
        let (a, initial_state) = last (remaining_addrs c);
            c0 = c\<lparr>remaining_addrs := butlast (remaining_addrs c), analyzed := analyzed c @ [a]\<rparr>
        in case sim_block a initial_state of
             None \<Rightarrow> c0\<lparr>crawl_warnings := crawl_warnings c0 @ [BlockFailed a]\<rparr>
           | Some s \<Rightarrow>
               let c1 = c0\<lparr>sim_blocks := insert a (sim_blocks c0)\<rparr>;
                   c2 = fold track_read (mem_reads s) c1;
                   c3 = fold track_write (mem_writes s) c2;
                   c4 = fold (track_code (out_state s)) (code_refs s) c3
               in fold (track_memref perm (out_state s)) (mem_refs s) c4)"

text \<open>
  The loop, with a bound on the number of iterations: \<open>None\<close> when the worklist is not
  empty after that many.
\<close>

fun crawl_loop ::
  "nat \<Rightarrow> (int \<Rightarrow> 'st \<Rightarrow> 'st sim_irsb option) \<Rightarrow> (int \<rightharpoonup> int) \<Rightarrow> 'st crawl
   \<Rightarrow> 'st crawl option" where
  "crawl_loop 0 sim_block perm c = (if remaining_addrs c = [] then Some c else None)"
| "crawl_loop (Suc n) sim_block perm c =
     (if remaining_addrs c = [] then Some c
      else crawl_loop n sim_block perm (crawl_step sim_block perm c))"

text \<open>
  \<^verbatim>\<open>make_refs\<close>: the crawl from the project's entry point, with \<open>loaded_state\<close> the
  state built over the pulled memory. The lookup of the main image before the loop
  raises \<^verbatim>\<open>KeyError\<close> when the dict has no such key. The result is \<open>None\<close> when the
  bound on the iterations is too small.
\<close>

definition make_refs ::
  "nat \<Rightarrow> (int \<Rightarrow> 'st \<Rightarrow> 'st sim_irsb option) \<Rightarrow> (int \<rightharpoonup> int) \<Rightarrow> 'st \<Rightarrow> 'sp project
   \<Rightarrow> (error + 'st crawl) option" where
  "make_refs fuel sim_block perm loaded_state p =
     (let c = init_crawl (entry p) loaded_state
      in case map_of (binaries p) (filename p) of
           None \<Rightarrow> Some (Inl KeyError)
         | Some binary \<Rightarrow> map_option Inr (crawl_loop fuel sim_block perm c))"

text \<open>
  The engine that reports only the first \<open>k\<close> memory references of each block: an
  iteration with it stops the loop over \<^verbatim>\<open>s.refs()[simuvex.SimMemRef]\<close> after \<open>k\<close> accesses.
\<close>

definition first_memrefs ::
  "(int \<Rightarrow> 'st \<Rightarrow> 'st sim_irsb option) \<Rightarrow> nat \<Rightarrow> int \<Rightarrow> 'st \<Rightarrow> 'st sim_irsb option" where
  "first_memrefs sim_block k a st =
     map_option (\<lambda>s. s\<lparr>mem_refs := take k (mem_refs s)\<rparr>) (sim_block a st)"

text \<open>Example blocks: an entry block with four memory references and one write.\<close>

definition concrete :: "int \<Rightarrow> int \<Rightarrow> int \<Rightarrow> ref" where
  "concrete i t bits = \<lparr>ref_addr = Some t, ref_inst = i, ref_size = bits\<rparr>"

definition demo_block :: "int \<Rightarrow> unit \<Rightarrow> unit sim_irsb option" where
  "demo_block a st =
     (if a = 0x1000 then
        Some \<lparr>mem_reads = [], mem_writes = [concrete 0x1000 0x5000 16], code_refs = [],
              mem_refs = [concrete 0x1000 0x2000 64, concrete 0x1000 0x3000 64,
                          concrete 0x1000 0x4000 64, concrete 0x1000 0x2000 64],
              out_state = ()\<rparr>
      else if a = 0x2000 then
        Some \<lparr>mem_reads = [], mem_writes = [],
              code_refs = [concrete 0x2000 0x1000 64, concrete 0x2004 0x2000 64,
                           concrete 0x2008 0x6000 64],
              mem_refs = [], out_state = ()\<rparr>
      else None)"

definition demo_perm :: "int \<rightharpoonup> int" where
  "demo_perm = [0x2000 \<mapsto> 5, 0x3000 \<mapsto> 6]"

definition crawl_proj :: "unit project" where
  "crawl_proj = init_project ''main'' (example_binary ''main'' 0x1000 0x6fff [])"

text \<open>
  Every queued or analyzed address is marked as seen, and none occurs twice: what
  holds while the accesses of a block are processed.
\<close>

definition seen_inv :: "'st crawl \<Rightarrow> bool" where
  "seen_inv c \<longleftrightarrow>
     distinct (map fst (remaining_addrs c) @ analyzed c) \<and>
     set (map fst (remaining_addrs c)) \<union> set (analyzed c) \<subseteq> sim_blocks c"

text \<open>
  The loop invariant: as above, except before the first iteration and after a failed
  first one, when the entry address is not yet marked.
\<close>

definition crawl_inv :: "'st crawl \<Rightarrow> bool" where
  "crawl_inv c \<longleftrightarrow>
     distinct (map fst (remaining_addrs c) @ analyzed c) \<and>
     (set (map fst (remaining_addrs c)) \<union> set (analyzed c) \<subseteq> sim_blocks c \<or>
      remaining_addrs c = [] \<or>
      (analyzed c = [] \<and> length (remaining_addrs c) = 1))"

section \<open>Properties of the address-space builder\<close>

lemma granularity_pos: "0 < granularity"
  by (simp add: granularity_def)

lemma next_slot_above: "M < granularity * ((M + granularity) div granularity)"
proof -
  have "(M + granularity) mod granularity < granularity"
    using granularity_pos by (rule pos_mod_bound)
  moreover have "granularity * ((M + granularity) div granularity)
                 + (M + granularity) mod granularity = M + granularity"
    by (rule mult_div_mod_eq)
  ultimately show ?thesis by linarith
qed

lemma rebased_min:
  "bin_min (rebase (find_delta p lib) lib)
   = granularity * ((max_addr p + granularity) div granularity) + bin_min lib mod granularity"
  by (simp add: rebase_def find_delta_def Let_def)

lemma rebased_min_above: "max_addr p < bin_min (rebase (find_delta p lib) lib)"
proof -
  have "0 \<le> bin_min lib mod granularity"
    using granularity_pos by simp
  then show ?thesis
    using next_slot_above [of "max_addr p"] by (simp add: rebased_min)
qed

lemma rebase_lib_names [simp]: "bin_lib_names (rebase d b) = bin_lib_names b"
  by (simp add: rebase_def)

lemma set_pop_in: "xs \<noteq> [] \<Longrightarrow> set_pop pick xs \<in> set xs"
  by (simp add: set_pop_def)

lemma load_loop_unfold:
  "load_loop pick fs s =
     (if remaining_libs s = [] then s else load_loop pick fs (load_step pick fs s))"
  by (rule load_loop.simps)

lemma load_loop_invariant:
  assumes "P s"
    and "\<And>t. P t \<Longrightarrow> remaining_libs t \<noteq> [] \<Longrightarrow> P (load_step pick fs t)"
  shows "P (load_loop pick fs s)"
  using assms
proof (induction pick fs s rule: load_loop.induct)
  case (1 pick fs s)
  show ?case
  proof (cases "remaining_libs s = []")
    case True
    then show ?thesis using "1.prems"(1) by (subst load_loop_unfold) simp
  next
    case False
    have "P (load_step pick fs s)" using "1.prems"(1) False by (rule "1.prems"(2))
    then have "P (load_loop pick fs (load_step pick fs s))"
      using False "1.prems"(2) by (intro "1.IH") auto
    then show ?thesis using False by (subst load_loop_unfold) simp
  qed
qed

lemma load_loop_drained: "remaining_libs (load_loop pick fs s) = []"
proof (induction pick fs s rule: load_loop.induct)
  case (1 pick fs s)
  then show ?case by (subst load_loop_unfold) simp
qed

lemma placed_aboveI: "bin_max (snd A) < bin_min (snd B) \<Longrightarrow> placed_above A B"
  by (auto simp: placed_above_def)

lemma load_step_spacing:
  fixes t :: "'sp loader"
  assumes ne: "remaining_libs t \<noteq> []"
    and sw: "sorted_wrt placed_above (placed t)"
    and below: "\<forall>x\<in>set (placed t). bin_max (snd x) \<le> max_addr (proj t) \<and> M0 < bin_min (snd x)"
    and m0: "M0 \<le> max_addr (proj t)"
  shows "sorted_wrt placed_above (placed (load_step pick fs t)) \<and>
         (\<forall>x\<in>set (placed (load_step pick fs t)).
            bin_max (snd x) \<le> max_addr (proj (load_step pick fs t)) \<and> M0 < bin_min (snd x)) \<and>
         M0 \<le> max_addr (proj (load_step pick fs t))"
proof (cases "map_of fs (set_pop pick (remaining_libs t))")
  case None
  then show ?thesis using sw below m0 by (simp add: load_step_def Let_def)
next
  case (Some fresh)
  show ?thesis
  proof (cases "set_pop pick (remaining_libs t) \<in> done_libs t")
    case True
    then show ?thesis using Some sw below m0 by (simp add: load_step_def Let_def)
  next
    case False
    let ?new = "rebase (find_delta (proj t) fresh) fresh"
    have above: "max_addr (proj t) < bin_min ?new"
      by (rule rebased_min_above)
    have "\<forall>x\<in>set (placed t). placed_above x (set_pop pick (remaining_libs t), ?new)"
      using below above by (auto intro!: placed_aboveI)
    then have "sorted_wrt placed_above (placed t @ [(set_pop pick (remaining_libs t), ?new)])"
      using sw by (simp add: sorted_wrt_append)
    moreover have "\<forall>x\<in>set (placed t @ [(set_pop pick (remaining_libs t), ?new)]).
                     bin_max (snd x) \<le> max (max_addr (proj t)) (bin_max ?new) \<and> M0 < bin_min (snd x)"
      using below above m0 by auto
    moreover have "M0 \<le> max (max_addr (proj t)) (bin_max ?new)"
      using m0 by simp
    ultimately show ?thesis
      using Some False by (simp add: load_step_def Let_def)
  qed
qed

lemma load_loop_spacing:
  fixes s :: "'sp loader"
  assumes "placed s = []"
  shows "sorted_wrt placed_above (placed (load_loop pick fs s)) \<and>
         (\<forall>x\<in>set (placed (load_loop pick fs s)). max_addr (proj s) < bin_min (snd x))"
proof -
  let ?P = "\<lambda>t :: 'sp loader. sorted_wrt placed_above (placed t) \<and>
              (\<forall>x\<in>set (placed t). bin_max (snd x) \<le> max_addr (proj t)
                                  \<and> max_addr (proj s) < bin_min (snd x)) \<and>
              max_addr (proj s) \<le> max_addr (proj t)"
  have "?P (load_loop pick fs s)"
  proof (rule load_loop_invariant [where P = ?P])
    show "?P s" using assms by simp
  next
    fix t assume "?P t" and "remaining_libs t \<noteq> []"
    then show "?P (load_step pick fs t)"
      using load_step_spacing [of t "max_addr (proj s)" pick fs] by blast
  qed
  then show ?thesis by blast
qed

lemma closure_skip:
  fixes t :: "'sp loader"
  assumes inv: "closure_inv fs roots t"
    and skip: "map_of fs lib = None \<or> lib \<in> done_libs t"
  shows "closure_inv fs roots (t\<lparr>remaining_libs := removeAll lib (remaining_libs t)\<rparr>)"
proof -
  have i1: "done_libs t \<subseteq> reachable_libs fs roots"
    and i2: "\<forall>n\<in>set (remaining_libs t). map_of fs n \<noteq> None \<longrightarrow> n \<in> reachable_libs fs roots"
    and i3: "\<forall>n\<in>set roots. map_of fs n \<noteq> None \<longrightarrow> n \<in> done_libs t \<union> set (remaining_libs t)"
    and i4: "\<forall>m\<in>done_libs t. \<forall>b. map_of fs m = Some b \<longrightarrow>
        (\<forall>n\<in>set (bin_lib_names b). map_of fs n \<noteq> None \<longrightarrow>
           n \<in> done_libs t \<union> set (remaining_libs t))"
    and i5: "set (map fst (placed t)) = done_libs t" "distinct (map fst (placed t))"
    using inv unfolding closure_inv_def by blast+
  have c3: "\<forall>n\<in>set roots. map_of fs n \<noteq> None \<longrightarrow> n \<in> done_libs t \<union> (set (remaining_libs t) - {lib})"
    using i3 skip by auto
  have c4: "\<forall>m\<in>done_libs t. \<forall>b. map_of fs m = Some b \<longrightarrow>
        (\<forall>n\<in>set (bin_lib_names b). map_of fs n \<noteq> None \<longrightarrow>
           n \<in> done_libs t \<union> (set (remaining_libs t) - {lib}))"
  proof (intro ballI allI impI)
    fix m b n
    assume "m \<in> done_libs t" "map_of fs m = Some b" "n \<in> set (bin_lib_names b)" "map_of fs n \<noteq> None"
    then have "n \<in> done_libs t \<union> set (remaining_libs t)" using i4 by blast
    moreover have "n = lib \<Longrightarrow> n \<in> done_libs t" using skip \<open>map_of fs n \<noteq> None\<close> by auto
    ultimately show "n \<in> done_libs t \<union> (set (remaining_libs t) - {lib})" by blast
  qed
  show ?thesis
    unfolding closure_inv_def using i1 i2 c3 c4 i5 by simp
qed

lemma closure_load:
  fixes t :: "'sp loader"
  assumes inv: "closure_inv fs roots t"
    and inrem: "lib \<in> set (remaining_libs t)"
    and ex: "map_of fs lib = Some fresh"
    and new: "lib \<notin> done_libs t"
    and names: "bin_lib_names nl = bin_lib_names fresh"
  shows "closure_inv fs roots
           (t\<lparr>remaining_libs := List.union (removeAll lib (remaining_libs t)) (bin_lib_names nl),
              done_libs := insert lib (done_libs t),
              placed := placed t @ [(lib, nl)],
              proj := q\<rparr>)"
proof -
  have i1: "done_libs t \<subseteq> reachable_libs fs roots"
    and i2: "\<forall>n\<in>set (remaining_libs t). map_of fs n \<noteq> None \<longrightarrow> n \<in> reachable_libs fs roots"
    and i3: "\<forall>n\<in>set roots. map_of fs n \<noteq> None \<longrightarrow> n \<in> done_libs t \<union> set (remaining_libs t)"
    and i4: "\<forall>m\<in>done_libs t. \<forall>b. map_of fs m = Some b \<longrightarrow>
        (\<forall>n\<in>set (bin_lib_names b). map_of fs n \<noteq> None \<longrightarrow>
           n \<in> done_libs t \<union> set (remaining_libs t))"
    and i5: "set (map fst (placed t)) = done_libs t" "distinct (map fst (placed t))"
    using inv unfolding closure_inv_def by blast+
  let ?D = "insert lib (done_libs t)"
  let ?R = "(set (remaining_libs t) - {lib}) \<union> set (bin_lib_names fresh)"
  have reach: "lib \<in> reachable_libs fs roots"
    using i2 inrem ex by auto
  have c1: "?D \<subseteq> reachable_libs fs roots"
    using i1 reach by simp
  have c2: "\<forall>n\<in>?R. map_of fs n \<noteq> None \<longrightarrow> n \<in> reachable_libs fs roots"
  proof (intro ballI impI)
    fix n assume n: "n \<in> ?R" and e: "map_of fs n \<noteq> None"
    show "n \<in> reachable_libs fs roots"
    proof (cases "n \<in> set (bin_lib_names fresh)")
      case True
      obtain b' where "map_of fs n = Some b'" using e by auto
      with reach ex True show ?thesis by (rule reachable_libs.dep)
    next
      case False
      then show ?thesis using n e i2 by auto
    qed
  qed
  have c3: "\<forall>n\<in>set roots. map_of fs n \<noteq> None \<longrightarrow> n \<in> ?D \<union> ?R"
    using i3 by auto
  have c4: "\<forall>m\<in>?D. \<forall>b. map_of fs m = Some b \<longrightarrow>
              (\<forall>n\<in>set (bin_lib_names b). map_of fs n \<noteq> None \<longrightarrow> n \<in> ?D \<union> ?R)"
  proof (intro ballI allI impI)
    fix m b n
    assume m: "m \<in> ?D" and b: "map_of fs m = Some b"
      and n: "n \<in> set (bin_lib_names b)" and e: "map_of fs n \<noteq> None"
    show "n \<in> ?D \<union> ?R"
    proof (cases "m = lib")
      case True
      then have "b = fresh" using b ex by simp
      then show ?thesis using n by simp
    next
      case False
      then have "m \<in> done_libs t" using m by simp
      then have "n \<in> done_libs t \<union> set (remaining_libs t)" using i4 b n e by blast
      then show ?thesis by auto
    qed
  qed
  have c5: "set (map fst (placed t @ [(lib, nl)])) = ?D"
    using i5 by auto
  have c6: "distinct (map fst (placed t @ [(lib, nl)]))"
    using i5 new by auto
  show ?thesis
    unfolding closure_inv_def using c1 c2 c3 c4 c5 c6 by (simp add: names)
qed

lemma load_step_closure:
  fixes t :: "'sp loader"
  assumes inv: "closure_inv fs roots t" and ne: "remaining_libs t \<noteq> []"
  shows "closure_inv fs roots (load_step pick fs t)"
proof -
  let ?lib = "set_pop pick (remaining_libs t)"
  have inrem: "?lib \<in> set (remaining_libs t)" using ne by (rule set_pop_in)
  show ?thesis
  proof (cases "map_of fs ?lib")
    case None
    then have "closure_inv fs roots (t\<lparr>remaining_libs := removeAll ?lib (remaining_libs t)\<rparr>)"
      using inv by (intro closure_skip) simp_all
    then show ?thesis using None by (simp add: load_step_def Let_def)
  next
    case (Some fresh)
    show ?thesis
    proof (cases "?lib \<in> done_libs t")
      case True
      then have "closure_inv fs roots (t\<lparr>remaining_libs := removeAll ?lib (remaining_libs t)\<rparr>)"
        using inv by (intro closure_skip) simp_all
      then show ?thesis using Some True by (simp add: load_step_def Let_def)
    next
      case False
      show ?thesis
        using closure_load [OF inv inrem Some False rebase_lib_names] Some False
        by (simp add: load_step_def Let_def)
    qed
  qed
qed

lemma closure_inv_final:
  fixes s :: "'sp loader"
  assumes inv: "closure_inv fs roots s" and fin: "remaining_libs s = []"
  shows "done_libs s = reachable_libs fs roots"
proof
  show "done_libs s \<subseteq> reachable_libs fs roots"
    using inv by (simp add: closure_inv_def)
next
  have i3: "\<forall>n\<in>set roots. map_of fs n \<noteq> None \<longrightarrow> n \<in> done_libs s"
    and i4: "\<forall>m\<in>done_libs s. \<forall>b. map_of fs m = Some b \<longrightarrow>
        (\<forall>n\<in>set (bin_lib_names b). map_of fs n \<noteq> None \<longrightarrow> n \<in> done_libs s)"
    using inv fin unfolding closure_inv_def by simp_all
  show "reachable_libs fs roots \<subseteq> done_libs s"
  proof
    fix n assume "n \<in> reachable_libs fs roots"
    then show "n \<in> done_libs s"
    proof (induction rule: reachable_libs.induct)
      case (root n b)
      then show ?case using i3 by auto
    next
      case (dep m b n b')
      have "map_of fs n \<noteq> None" using dep.hyps by simp
      then show ?case using i4 dep.IH dep.hyps by blast
    qed
  qed
qed

lemma load_loop_closure:
  fixes s :: "'sp loader"
  assumes "closure_inv fs roots s"
  shows "closure_inv fs roots (load_loop pick fs s)"
  using assms
  by (rule load_loop_invariant [where P = "closure_inv fs roots"]) (rule load_step_closure)

lemma demo_placed:
  "map (\<lambda>(n, b). (n, bin_min b, bin_max b)) (placed demo_loaded)
   = [(''liba'', 0x1000000, 0x2000004), (''libb'', 0x3000000, 0x3000010)]"
  by (simp add: demo_loaded_def demo_proj_def demo_fs_def demo_main_def first_pick_def
      example_binary_def init_project_def load_loop.simps load_step_def set_pop_def
      find_delta_def rebase_def granularity_def Let_def List.union_def List.insert_def)

lemma demo_load_libs: "load_libs first_pick demo_fs demo_proj = Inr demo_loaded"
  by (simp add: load_libs_def demo_loaded_def demo_proj_def init_project_def)

lemma demo_len: "length (placed demo_loaded) = 2"
  using arg_cong [OF demo_placed, of length] by simp

lemma demo_second: "bin_min (snd (placed demo_loaded ! 1)) = 0x3000000"
proof -
  have "map (\<lambda>(n, b). (n, bin_min b, bin_max b)) (placed demo_loaded) ! 1
        = (''libb'', 0x3000000, 0x3000010)"
    by (simp only: demo_placed) simp
  moreover have "(1::nat) < length (placed demo_loaded)" by (simp add: demo_len)
  ultimately show ?thesis by (simp only: nth_map) (simp add: split_def)
qed

lemma demo_first: "bin_max (snd (placed demo_loaded ! 0)) = 0x2000004"
proof -
  have "map (\<lambda>(n, b). (n, bin_min b, bin_max b)) (placed demo_loaded) ! 0
        = (''liba'', 0x1000000, 0x2000004)"
    by (simp only: demo_placed) simp
  moreover have "(0::nat) < length (placed demo_loaded)" by (simp add: demo_len)
  ultimately show ?thesis by (simp only: nth_map) (simp add: split_def)
qed

lemma demo_names: "map fst (placed demo_loaded) = [''liba'', ''libb'']"
proof -
  have "map fst (map (\<lambda>(n, b). (n, bin_min b, bin_max b)) (placed demo_loaded)) = [''liba'', ''libb'']"
    by (simp only: demo_placed) simp
  moreover have "fst \<circ> (\<lambda>(n, b). (n, bin_min b, bin_max b)) = (fst :: string \<times> binary \<Rightarrow> string)"
    by (rule ext) (simp add: split_def)
  ultimately show ?thesis by (simp only: map_map)
qed

lemma reachable_exists: "n \<in> reachable_libs fs roots \<Longrightarrow> map_of fs n \<noteq> None"
  by (induction rule: reachable_libs.induct) simp_all

lemma closure_inv_init:
  "closure_inv fs roots
     \<lparr>remaining_libs = remdups roots, done_libs = {}, placed = [], proj = p\<rparr>"
  unfolding closure_inv_def by (auto intro: reachable_libs.root)

lemma placed_from_grow:
  fixes p p' :: "'sp project"
  assumes "placed_from fs p0 p x" and "max_addr p \<le> max_addr p'"
  shows "placed_from fs p0 p' x"
proof -
  obtain fresh and q :: "'sp project" where
    "map_of fs (fst x) = Some fresh" "snd x = rebase (find_delta q fresh) fresh"
    "max_addr p0 \<le> max_addr q" "max_addr q \<le> max_addr p"
    using assms(1) unfolding placed_from_def by blast
  then have "map_of fs (fst x) = Some fresh \<and> snd x = rebase (find_delta q fresh) fresh \<and>
        max_addr p0 \<le> max_addr q \<and> max_addr q \<le> max_addr p'"
    using assms(2) by simp
  then show ?thesis unfolding placed_from_def by blast
qed

lemma load_step_stored:
  fixes t :: "'sp loader"
  assumes st: "stored_inv fs p0 t" and names: "set (map fst (placed t)) = done_libs t"
  shows "stored_inv fs p0 (load_step pick fs t)"
proof -
  let ?lib = "set_pop pick (remaining_libs t)"
  have s1: "\<forall>x\<in>set (placed t).
        map_of (binaries (proj t)) (fst x) = Some (snd x) \<and> placed_from fs p0 (proj t) x"
    and s2: "\<forall>n. n \<notin> done_libs t \<longrightarrow> map_of (binaries (proj t)) n = map_of (binaries p0) n"
    and s3: "max_addr p0 \<le> max_addr (proj t)"
    using st unfolding stored_inv_def by blast+
  show ?thesis
  proof (cases "map_of fs ?lib")
    case None
    then show ?thesis using s1 s2 s3 by (simp add: load_step_def Let_def stored_inv_def)
  next
    case (Some fresh)
    show ?thesis
    proof (cases "?lib \<in> done_libs t")
      case True
      then show ?thesis using Some s1 s2 s3 by (simp add: load_step_def Let_def stored_inv_def)
    next
      case False
      let ?new = "rebase (find_delta (proj t) fresh) fresh"
      let ?bins = "AList.update ?lib ?new (binaries (proj t))"
      let ?p' = "(proj t)\<lparr>binaries := ?bins,
                   min_addr := min (min_addr (proj t)) (bin_min ?new),
                   max_addr := max (max_addr (proj t)) (bin_max ?new)\<rparr>"
      have step: "load_step pick fs t
          = t\<lparr>remaining_libs := List.union (removeAll ?lib (remaining_libs t)) (bin_lib_names ?new),
               done_libs := insert ?lib (done_libs t),
               placed := placed t @ [(?lib, ?new)],
               proj := ?p'\<rparr>"
        using Some False by (simp add: load_step_def Let_def)
      have grow: "max_addr (proj t) \<le> max_addr ?p'" by simp
      have old: "\<forall>x\<in>set (placed t). fst x \<noteq> ?lib"
      proof
        fix x assume "x \<in> set (placed t)"
        then have "fst x \<in> fst ` set (placed t)" by (rule imageI)
        then have dn: "fst x \<in> done_libs t" using names by simp
        show "fst x \<noteq> ?lib"
        proof
          assume "fst x = ?lib"
          then have "?lib \<in> done_libs t" using dn by simp
          then show False using False by simp
        qed
      qed
      have c1: "\<forall>x\<in>set (placed t @ [(?lib, ?new)]).
          map_of (binaries ?p') (fst x) = Some (snd x) \<and> placed_from fs p0 ?p' x"
      proof
        fix x assume "x \<in> set (placed t @ [(?lib, ?new)])"
        then consider "x \<in> set (placed t)" | "x = (?lib, ?new)" by auto
        then show "map_of (binaries ?p') (fst x) = Some (snd x) \<and> placed_from fs p0 ?p' x"
        proof cases
          case 1
          then have "fst x \<noteq> ?lib" using old by blast
          then have "map_of (binaries ?p') (fst x) = map_of (binaries (proj t)) (fst x)"
            by (simp add: update_conv')
          moreover have "placed_from fs p0 ?p' x"
            using s1 1 grow by (blast intro: placed_from_grow)
          ultimately show ?thesis using s1 1 by simp
        next
          case 2
          have "map_of (binaries ?p') ?lib = Some ?new" by (simp add: update_conv')
          moreover have "map_of fs ?lib = Some fresh \<and> ?new = rebase (find_delta (proj t) fresh) fresh \<and>
              max_addr p0 \<le> max_addr (proj t) \<and> max_addr (proj t) \<le> max_addr ?p'"
            using Some s3 by simp
          then have "placed_from fs p0 ?p' (?lib, ?new)"
            unfolding placed_from_def fst_conv snd_conv by blast
          ultimately show ?thesis using 2 by simp
        qed
      qed
      have c2: "\<forall>n. n \<notin> insert ?lib (done_libs t) \<longrightarrow>
                  map_of (binaries ?p') n = map_of (binaries p0) n"
        using s2 by (simp add: update_conv')
      have c3: "max_addr p0 \<le> max_addr ?p'" using s3 by simp
      show ?thesis
        unfolding step stored_inv_def using c1 c2 c3 by simp
    qed
  qed
qed

lemma load_loop_stored:
  fixes s :: "'sp loader"
  assumes "closure_inv fs roots s" and "stored_inv fs p0 s"
  shows "closure_inv fs roots (load_loop pick fs s) \<and> stored_inv fs p0 (load_loop pick fs s)"
proof (rule load_loop_invariant [where P = "\<lambda>t. closure_inv fs roots t \<and> stored_inv fs p0 t"])
  show "closure_inv fs roots s \<and> stored_inv fs p0 s" using assms by simp
next
  fix t :: "'sp loader"
  assume inv: "closure_inv fs roots t \<and> stored_inv fs p0 t" and ne: "remaining_libs t \<noteq> []"
  have "set (map fst (placed t)) = done_libs t"
    using inv by (simp add: closure_inv_def)
  then have "stored_inv fs p0 (load_step pick fs t)"
    using inv by (intro load_step_stored) simp_all
  moreover have "closure_inv fs roots (load_step pick fs t)"
    using inv ne by (intro load_step_closure) simp_all
  ultimately show "closure_inv fs roots (load_step pick fs t) \<and> stored_inv fs p0 (load_step pick fs t)"
    by simp
qed

lemma stored_inv_init:
  "stored_inv fs p \<lparr>remaining_libs = xs, done_libs = {}, placed = [], proj = p\<rparr>"
  by (simp add: stored_inv_def)

lemma demo_stored:
  "map (\<lambda>(n, b). (n, bin_min b, bin_max b)) (binaries (proj demo_loaded))
   = [(''main'', 0x400000, 0x400fff), (''liba'', 0x1000000, 0x2000004),
      (''libb'', 0x3000000, 0x3000010)]"
  by (simp add: demo_loaded_def demo_proj_def demo_fs_def demo_main_def first_pick_def
      example_binary_def init_project_def load_loop.simps load_step_def set_pop_def
      find_delta_def rebase_def granularity_def Let_def List.union_def List.insert_def)

text \<open>
  What the builder does keep: every image it places lies wholly above every image placed
  before it, and above the envelope the project had before loading, so the ranges are
  pairwise disjoint.
\<close>

lemma placed_images_disjoint:
  assumes "load_libs pick fs p = Inr r"
  shows "(\<forall>i j. i < j \<longrightarrow> j < length (placed r) \<longrightarrow> placed_above (placed r ! i) (placed r ! j)) \<and>
         (\<forall>B\<in>set (placed r). max_addr p < bin_min (snd B))"
proof -
  have "\<exists>main :: binary. r = load_loop pick fs
      \<lparr>remaining_libs = remdups (bin_lib_names main), done_libs = {}, placed = [], proj = p\<rparr>"
    using assms by (cases "map_of (binaries p) (filename p)") (auto simp: load_libs_def)
  then obtain main :: binary where r: "r = load_loop pick fs
      \<lparr>remaining_libs = remdups (bin_lib_names main), done_libs = {}, placed = [], proj = p\<rparr>"
    by blast
  have "sorted_wrt placed_above (placed r) \<and> (\<forall>x\<in>set (placed r). max_addr p < bin_min (snd x))"
    unfolding r using load_loop_spacing
      [of "\<lparr>remaining_libs = remdups (bin_lib_names main), done_libs = {}, placed = [], proj = p\<rparr>"
          pick fs]
    by simp
  then show ?thesis
    by (simp add: sorted_wrt_iff_nth_less)
qed

text \<open>
  Claim C2. An image placed after another is to begin at or above the earlier maximum
  plus \<open>granularity\<close>, at the slot
  \<open>granularity * ceil((global_max + granularity) / granularity) + (lo mod granularity)\<close>;
  the comment in \<^verbatim>\<open>find_delta\<close> asks for the same ("relocate after ... with a granularity
  between them"). The quotient in \<^verbatim>\<open>find_delta\<close> is an integer division, which rounds down,
  so the new base is only the first multiple of \<open>granularity\<close> above the maximum. With
  \<^verbatim>\<open>liba\<close> rebased to \<open>[0x1000000, 0x2000004]\<close>, \<^verbatim>\<open>libb\<close> is placed at \<open>0x3000000\<close>, below
  \<open>0x2000004 + granularity\<close> and not at the slot of the rounded-up quotient; with a main
  image that ends at \<open>0x1ffffff\<close>, the library is placed at \<open>0x2000000\<close>, the very next
  address.
\<close>

theorem next_image_within_granularity:
  "load_libs first_pick demo_fs demo_proj = Inr demo_loaded \<and>
   map (\<lambda>(n, b). (n, bin_min b, bin_max b)) (placed demo_loaded)
     = [(''liba'', 0x1000000, 0x2000004), (''libb'', 0x3000000, 0x3000010)] \<and>
   bin_min (snd (placed demo_loaded ! 1)) < bin_max (snd (placed demo_loaded ! 0)) + granularity \<and>
   bin_min (snd (placed demo_loaded ! 1))
     \<noteq> granularity * (- ((- (bin_max (snd (placed demo_loaded ! 0)) + granularity)) div granularity))
       + 0 mod granularity \<and>
   (\<exists>r. load_libs first_pick tight_fs tight_proj = Inr r \<and>
        map (\<lambda>(n, b). (n, bin_min b, bin_max b)) (placed r) = [(''libc'', 0x2000000, 0x2000010)] \<and>
        bin_min (snd (placed r ! 0)) = max_addr tight_proj + 1)"
proof -
  have gap: "bin_min (snd (placed demo_loaded ! 1)) < bin_max (snd (placed demo_loaded ! 0)) + granularity"
    by (simp only: demo_first demo_second) (simp add: granularity_def)
  have slot: "bin_min (snd (placed demo_loaded ! 1))
     \<noteq> granularity * (- ((- (bin_max (snd (placed demo_loaded ! 0)) + granularity)) div granularity))
       + 0 mod granularity"
    by (simp only: demo_first demo_second) (simp add: granularity_def)
  have tight: "\<exists>r. load_libs first_pick tight_fs tight_proj = Inr r \<and>
        map (\<lambda>(n, b). (n, bin_min b, bin_max b)) (placed r) = [(''libc'', 0x2000000, 0x2000010)] \<and>
        bin_min (snd (placed r ! 0)) = max_addr tight_proj + 1"
    by (simp add: load_libs_def tight_proj_def tight_fs_def tight_main_def first_pick_def
      example_binary_def init_project_def load_loop.simps load_step_def set_pop_def
      find_delta_def rebase_def granularity_def Let_def List.union_def List.insert_def)
  show ?thesis
    using demo_load_libs demo_placed gap slot tight by (intro conjI)
qed

text \<open>
  Claim C8. The dependency loop terminates for every dependency graph and every order
  in which the set hands out names: it returns with nothing remaining. It loads exactly
  the dependencies referenced transitively through existing files, each once, and a name
  with no file is never loaded and raises nothing. Every image it loads is the image of
  its file, rebased by the delta of \<^verbatim>\<open>find_delta\<close> for an envelope at or above the one the
  project had before, and is stored in the project's dict under its name; the entries
  of all other names are the ones the project had before.
\<close>

theorem load_libs_terminates_loads_once:
  fixes p :: "'sp project"
  assumes "map_of (binaries p) (filename p) = Some main"
  shows "\<exists>r. load_libs pick fs p = Inr r \<and>
             remaining_libs r = [] \<and>
             distinct (map fst (placed r)) \<and>
             set (map fst (placed r)) = reachable_libs fs (bin_lib_names main) \<and>
             done_libs r = reachable_libs fs (bin_lib_names main) \<and>
             (\<forall>n. map_of fs n = None \<longrightarrow> n \<notin> set (map fst (placed r))) \<and>
             (\<forall>x\<in>set (placed r).
                map_of (binaries (proj r)) (fst x) = Some (snd x) \<and>
                (\<exists>fresh (q :: 'sp project).
                   map_of fs (fst x) = Some fresh \<and>
                   snd x = rebase (find_delta q fresh) fresh \<and>
                   max_addr p \<le> max_addr q \<and> max_addr q \<le> max_addr (proj r))) \<and>
             (\<forall>n. n \<notin> reachable_libs fs (bin_lib_names main) \<longrightarrow>
                map_of (binaries (proj r)) n = map_of (binaries p) n)"
proof -
  let ?s0 = "\<lparr>remaining_libs = remdups (bin_lib_names main), done_libs = {}, placed = [], proj = p\<rparr>"
  let ?r = "load_loop pick fs ?s0"
  have run: "load_libs pick fs p = Inr ?r"
    using assms by (simp add: load_libs_def)
  have both: "closure_inv fs (bin_lib_names main) ?r \<and> stored_inv fs p ?r"
    by (rule load_loop_stored) (rule closure_inv_init, rule stored_inv_init)
  then have inv: "closure_inv fs (bin_lib_names main) ?r" and sto: "stored_inv fs p ?r"
    by simp_all
  have fin: "remaining_libs ?r = []"
    by (rule load_loop_drained)
  have dn: "done_libs ?r = reachable_libs fs (bin_lib_names main)"
    using inv fin by (rule closure_inv_final)
  have pl: "set (map fst (placed ?r)) = done_libs ?r" and di: "distinct (map fst (placed ?r))"
    using inv unfolding closure_inv_def by blast+
  have miss: "\<forall>n. map_of fs n = None \<longrightarrow> n \<notin> set (map fst (placed ?r))"
    unfolding pl dn using reachable_exists by blast
  have st1: "\<forall>x\<in>set (placed ?r).
                map_of (binaries (proj ?r)) (fst x) = Some (snd x) \<and>
                (\<exists>fresh (q :: 'sp project).
                   map_of fs (fst x) = Some fresh \<and>
                   snd x = rebase (find_delta q fresh) fresh \<and>
                   max_addr p \<le> max_addr q \<and> max_addr q \<le> max_addr (proj ?r))"
    using sto unfolding stored_inv_def placed_from_def by blast
  have st2: "\<forall>n. n \<notin> reachable_libs fs (bin_lib_names main) \<longrightarrow>
                map_of (binaries (proj ?r)) n = map_of (binaries p) n"
    using sto unfolding stored_inv_def dn by blast
  have pl': "set (map fst (placed ?r)) = reachable_libs fs (bin_lib_names main)"
    using pl dn by simp
  show ?thesis
    by (rule exI [of _ ?r]) (intro conjI run fin di pl' dn miss st1 st2)
qed

theorem load_libs_terminates_loads_once_witness:
  "map_of (binaries demo_proj) (filename demo_proj) = Some demo_main \<and>
   map_of demo_fs ''libmissing'' = None \<and>
   reachable_libs demo_fs (bin_lib_names demo_main) = {''liba'', ''libb''} \<and>
   map_of (binaries (proj demo_loaded)) (fst (placed demo_loaded ! 0))
     = Some (snd (placed demo_loaded ! 0)) \<and>
   map (\<lambda>(n, b). (n, bin_min b, bin_max b)) (binaries (proj demo_loaded))
     = [(''main'', 0x400000, 0x400fff), (''liba'', 0x1000000, 0x2000004),
        (''libb'', 0x3000000, 0x3000010)]"
proof -
  have h: "map_of (binaries demo_proj) (filename demo_proj) = Some demo_main"
    by (simp add: demo_proj_def init_project_def)
  obtain r where r: "load_libs first_pick demo_fs demo_proj = Inr r"
    and s: "set (map fst (placed r)) = reachable_libs demo_fs (bin_lib_names demo_main)"
    and b: "\<forall>x\<in>set (placed r). map_of (binaries (proj r)) (fst x) = Some (snd x)"
    using load_libs_terminates_loads_once [OF h, of first_pick demo_fs] by blast
  have eq: "r = demo_loaded" using r by (simp only: demo_load_libs sum.inject)
  then have "reachable_libs demo_fs (bin_lib_names demo_main) = set [''liba'', ''libb'']"
    using s by (simp only: demo_names)
  then have reach: "reachable_libs demo_fs (bin_lib_names demo_main) = {''liba'', ''libb''}"
    by simp
  have "placed demo_loaded ! 0 \<in> set (placed demo_loaded)"
    by (rule nth_mem) (simp add: demo_len)
  then have stored: "map_of (binaries (proj demo_loaded)) (fst (placed demo_loaded ! 0))
     = Some (snd (placed demo_loaded ! 0))"
    using b unfolding eq by blast
  have miss: "map_of demo_fs ''libmissing'' = None"
    by (simp add: demo_fs_def)
  show ?thesis
    using h miss reach stored demo_stored by (intro conjI)
qed

text \<open>
  Claim C7. Rebasing an image by the delta of \<^verbatim>\<open>find_delta\<close> keeps its alignment
  offset: the rebased minimum address is congruent to the original minimum address
  modulo \<open>granularity\<close>.
\<close>

theorem rebase_preserves_alignment:
  "bin_min (rebase (find_delta p lib) lib) mod granularity = bin_min lib mod granularity"
proof -
  have "(granularity * ((max_addr p + granularity) div granularity) + bin_min lib mod granularity)
          mod granularity = bin_min lib mod granularity"
    by simp
  then show ?thesis by (simp only: rebased_min)
qed

lemma le_fold_sum:
  "foldr (\<lambda>b acc. uint b + 256 * acc) (bs :: 8 word list) 0
   = (\<Sum>i<length bs. uint (bs ! i) * 256 ^ i)"
proof (induction bs)
  case Nil
  then show ?case by simp
next
  case (Cons b bs)
  have "(\<Sum>i<Suc (length bs). uint ((b # bs) ! i) * 256 ^ i)
        = uint b + (\<Sum>i<length bs. uint (bs ! i) * 256 ^ Suc i)"
    by (simp only: sum.lessThan_Suc_shift) simp
  also have "(\<Sum>i<length bs. uint (bs ! i) * 256 ^ Suc i)
             = 256 * (\<Sum>i<length bs. uint (bs ! i) * 256 ^ i)"
    by (simp add: sum_distrib_left mult.assoc mult.left_commute)
  finally show ?case using Cons.IH by simp
qed

lemma le_fold_bounds:
  "0 \<le> foldr (\<lambda>b acc. uint b + 256 * acc) (bs :: 8 word list) 0 \<and>
   foldr (\<lambda>b acc. uint b + 256 * acc) bs 0 < 256 ^ length bs"
proof (induction bs)
  case Nil
  then show ?case by simp
next
  case (Cons b bs)
  have "0 \<le> uint b" and "uint b < 256"
    using uint_lt2p [of b] by simp_all
  then show ?case using Cons.IH by simp
qed

lemma unpack_take8:
  assumes "8 \<le> length ds"
  shows "unpack_le64 (take 8 ds) = Inr (\<Sum>i<8. uint (ds ! i) * 256 ^ i)"
proof -
  have len: "length (take 8 ds) = 8" using assms by simp
  have "foldr (\<lambda>b acc. uint b + 256 * acc) (take 8 ds) 0
        = (\<Sum>i<8. uint (take 8 ds ! i) * 256 ^ i)"
    using le_fold_sum [of "take 8 ds"] by (simp only: len)
  also have "\<dots> = (\<Sum>i<8. uint (ds ! i) * 256 ^ i)"
    by (rule sum.cong) simp_all
  finally show ?thesis using len by (simp add: unpack_le64_def)
qed

text \<open>
  Claim C5. The pseudo-address \<^verbatim>\<open>set_sim_procedure\<close> registers depends on the library and
  function names alone, whatever the project, the image and the handler are: it is the
  unsigned little-endian value of the first eight digest bytes of \<open>library_function\<close>,
  a 64-bit quantity.
\<close>

theorem pseudo_address_deterministic:
  assumes "8 \<le> length (digest (lib @ ''_'' @ func))"
  shows "(\<exists>binary'. set_sim_procedure digest p binary lib func sim_proc
            = Inr (p\<lparr>sim_procedures := (sim_procedures p)(pseudo_address digest lib func \<mapsto> sim_proc)\<rparr>,
                   binary')) \<and>
         0 \<le> pseudo_address digest lib func \<and> pseudo_address digest lib func < 2 ^ 64"
proof -
  let ?ds = "digest (lib @ ''_'' @ func)"
  have u: "unpack_le64 (take 8 ?ds) = Inr (pseudo_address digest lib func)"
    using unpack_take8 [OF assms] by (simp add: pseudo_address_def)
  have len: "length (take 8 ?ds) = 8" using assms by simp
  have "foldr (\<lambda>b acc. uint b + 256 * acc) (take 8 ?ds) 0 = pseudo_address digest lib func"
    using u len by (simp add: unpack_le64_def)
  then have "0 \<le> pseudo_address digest lib func \<and> pseudo_address digest lib func < 256 ^ 8"
    using le_fold_bounds [of "take 8 ?ds"] len by simp
  then have rng: "0 \<le> pseudo_address digest lib func \<and> pseudo_address digest lib func < 2 ^ 64"
    by simp
  show ?thesis
    using u rng by (simp add: set_sim_procedure_def Let_def)
qed

theorem pseudo_address_deterministic_witness:
  "8 \<le> length (demo_digest (''libc'' @ ''_'' @ ''puts'')) \<and>
   (\<exists>binary'. set_sim_procedure demo_digest demo_proj demo_main ''libc'' ''puts'' ()
      = Inr (demo_proj\<lparr>sim_procedures :=
               (sim_procedures demo_proj)(pseudo_address demo_digest ''libc'' ''puts'' \<mapsto> ())\<rparr>,
             binary')) \<and>
   pseudo_address demo_digest ''libc'' ''puts'' = 0x100F0E0D0C0B0A09"
proof -
  have h: "8 \<le> length (demo_digest (''libc'' @ ''_'' @ ''puts''))"
    by (simp add: demo_digest_def)
  have v: "pseudo_address demo_digest ''libc'' ''puts'' = 0x100F0E0D0C0B0A09"
    by (simp add: pseudo_address_def demo_digest_def lessThan_nat_numeral lessThan_Suc upt_rec)
  show ?thesis
    using pseudo_address_deterministic
      [where digest = demo_digest and lib = "''libc''" and func = "''puts''"
         and p = demo_proj and binary = demo_main and sim_proc = "()"] h v
    by blast
qed

lemma stub_frame_refl: "stub_frame K st st"
  by (simp add: stub_frame_def)

lemma stub_frame_trans:
  "stub_frame K st st' \<Longrightarrow> stub_frame K st' st'' \<Longrightarrow> stub_frame K st st''"
  by (simp add: stub_frame_def)

lemma stub_frame_mono: "stub_frame K st st' \<Longrightarrow> K \<subseteq> L \<Longrightarrow> stub_frame L st st'"
  unfolding stub_frame_def by blast

lemma set_sim_procedure_frame:
  assumes "set_sim_procedure md5 p binary lib func sim_proc = Inr st'"
  shows "stub_frame {a. unpack_le64 (take 8 (md5 (lib @ ''_'' @ func))) = Inr a} (p, binary) st'"
proof (cases "unpack_le64 (take 8 (md5 (lib @ ''_'' @ func)))")
  case (Inl e)
  then show ?thesis using assms by (simp add: set_sim_procedure_def Let_def)
next
  case (Inr a)
  then show ?thesis using assms
    by (auto simp: set_sim_procedure_def Let_def stub_frame_def)
qed

lemma stub_imports_frame:
  "stub_imports md5 functions lib_name imps st = Inr st' \<Longrightarrow>
   stub_frame {a. \<exists>imp\<in>set imps. functions imp \<noteq> None \<and>
                   unpack_le64 (take 8 (md5 (lib_name @ ''_'' @ imp))) = Inr a} st st'"
proof (induction imps arbitrary: st)
  case Nil
  then show ?case by (simp add: stub_frame_refl)
next
  case (Cons imp imps)
  let ?K = "{a. \<exists>i\<in>set (imp # imps). functions i \<noteq> None \<and>
                 unpack_le64 (take 8 (md5 (lib_name @ ''_'' @ i))) = Inr a}"
  let ?K' = "{a. \<exists>i\<in>set imps. functions i \<noteq> None \<and>
                 unpack_le64 (take 8 (md5 (lib_name @ ''_'' @ i))) = Inr a}"
  obtain p binary where st: "st = (p, binary)" by (cases st)
  have sub: "?K' \<subseteq> ?K" by auto
  show ?case
  proof (cases "functions imp")
    case None
    then have "stub_imports md5 functions lib_name imps st = Inr st'"
      using Cons.prems st by simp
    then have "stub_frame ?K' st st'" by (rule Cons.IH)
    then show ?thesis using sub by (rule stub_frame_mono)
  next
    case (Some sim_proc)
    show ?thesis
    proof (cases "set_sim_procedure md5 p binary lib_name imp sim_proc")
      case (Inl e)
      then show ?thesis using Cons.prems st Some by simp
    next
      case (Inr st1)
      then have rest: "stub_imports md5 functions lib_name imps st1 = Inr st'"
        using Cons.prems st Some by simp
      have "stub_frame {a. unpack_le64 (take 8 (md5 (lib_name @ ''_'' @ imp))) = Inr a}
              (p, binary) st1"
        using Inr by (rule set_sim_procedure_frame)
      then have "stub_frame {a. unpack_le64 (take 8 (md5 (lib_name @ ''_'' @ imp))) = Inr a} st st1"
        by (simp only: st)
      then have one: "stub_frame ?K st st1"
        by (rule stub_frame_mono) (use Some in auto)
      have "stub_frame ?K' st1 st'" using rest by (rule Cons.IH)
      then have "stub_frame ?K st1 st'" using sub by (rule stub_frame_mono)
      with one show ?thesis by (rule stub_frame_trans)
    qed
  qed
qed

lemma stub_libs_frame:
  "stub_libs md5 sims libs st = Inr st' \<Longrightarrow>
   stub_frame {a. \<exists>lib\<in>set libs. \<exists>functions. sims lib = Some functions \<and>
                   (\<exists>imp\<in>fst ` set (bin_imports (snd st)). functions imp \<noteq> None \<and>
                      unpack_le64 (take 8 (md5 (lib @ ''_'' @ imp))) = Inr a)} st st'"
proof (induction libs arbitrary: st)
  case Nil
  then show ?case by (simp add: stub_frame_refl)
next
  case (Cons lib_name rest)
  let ?K = "\<lambda>ls (b :: binary). {a. \<exists>lib\<in>set ls. \<exists>functions. sims lib = Some functions \<and>
                   (\<exists>imp\<in>fst ` set (bin_imports b). functions imp \<noteq> None \<and>
                      unpack_le64 (take 8 (md5 (lib @ ''_'' @ imp))) = Inr a)}"
  obtain p binary where st: "st = (p, binary)" by (cases st)
  have "set rest \<subseteq> set (lib_name # rest)" by auto
  then have sub: "?K rest binary \<subseteq> ?K (lib_name # rest) binary"
    by (intro Collect_mono) blast
  show ?case
  proof (cases "sims lib_name")
    case None
    then have "stub_libs md5 sims rest st = Inr st'"
      using Cons.prems st by simp
    then have "stub_frame (?K rest (snd st)) st st'" by (rule Cons.IH)
    then have "stub_frame (?K rest binary) st st'" by (simp only: st snd_conv)
    then have "stub_frame (?K (lib_name # rest) binary) st st'"
      using sub by (rule stub_frame_mono)
    then show ?thesis by (simp only: st snd_conv)
  next
    case (Some fns)
    show ?thesis
    proof (cases "stub_imports md5 fns lib_name (map fst (bin_imports binary)) (p, binary)")
      case (Inl e)
      then show ?thesis using Cons.prems st Some by simp
    next
      case (Inr st1)
      then have more: "stub_libs md5 sims rest st1 = Inr st'"
        using Cons.prems st Some by simp
      have f1: "stub_frame {a. \<exists>imp\<in>set (map fst (bin_imports binary)). fns imp \<noteq> None \<and>
                   unpack_le64 (take 8 (md5 (lib_name @ ''_'' @ imp))) = Inr a} (p, binary) st1"
        using Inr by (rule stub_imports_frame)
      have "{a. \<exists>imp\<in>set (map fst (bin_imports binary)). fns imp \<noteq> None \<and>
                   unpack_le64 (take 8 (md5 (lib_name @ ''_'' @ imp))) = Inr a}
            \<subseteq> ?K (lib_name # rest) binary"
      proof (intro Collect_mono impI)
        fix a
        assume "\<exists>imp\<in>set (map fst (bin_imports binary)). fns imp \<noteq> None \<and>
                   unpack_le64 (take 8 (md5 (lib_name @ ''_'' @ imp))) = Inr a"
        then have "\<exists>imp\<in>fst ` set (bin_imports binary). fns imp \<noteq> None \<and>
                   unpack_le64 (take 8 (md5 (lib_name @ ''_'' @ imp))) = Inr a"
          by (simp only: set_map)
        then have "\<exists>functions. sims lib_name = Some functions \<and>
                   (\<exists>imp\<in>fst ` set (bin_imports binary). functions imp \<noteq> None \<and>
                      unpack_le64 (take 8 (md5 (lib_name @ ''_'' @ imp))) = Inr a)"
          using Some by blast
        moreover have "lib_name \<in> set (lib_name # rest)" by simp
        ultimately show "\<exists>lib\<in>set (lib_name # rest). \<exists>functions. sims lib = Some functions \<and>
                   (\<exists>imp\<in>fst ` set (bin_imports binary). functions imp \<noteq> None \<and>
                      unpack_le64 (take 8 (md5 (lib @ ''_'' @ imp))) = Inr a)"
          by (rule bexI)
      qed
      with f1 have one: "stub_frame (?K (lib_name # rest) binary) (p, binary) st1"
        by (rule stub_frame_mono)
      have same: "bin_imports (snd st1) = bin_imports binary"
        using f1 by (simp add: stub_frame_def)
      have "stub_frame (?K rest (snd st1)) st1 st'" using more by (rule Cons.IH)
      then have "stub_frame (?K rest binary) st1 st'" by (simp only: same)
      then have "stub_frame (?K (lib_name # rest) binary) st1 st'"
        using sub by (rule stub_frame_mono)
      with one have "stub_frame (?K (lib_name # rest) binary) (p, binary) st'"
        by (rule stub_frame_trans)
      then show ?thesis by (simp only: st snd_conv)
    qed
  qed
qed

text \<open>
  Claim C10. Stub-based import resolution works on the main image alone: every other
  loaded image is left exactly as it was (import table and bytes included), and every
  handler-table entry that changes belongs to a library the main image declares and an
  import of the main image.
\<close>

theorem stubs_touch_main_only:
  assumes "resolve_imports_using_sim_procedures digest sims p = Inr p'"
  shows "\<exists>main. map_of (binaries p) (filename p) = Some main \<and>
           (\<forall>name. name \<noteq> filename p \<longrightarrow> map_of (binaries p') name = map_of (binaries p) name) \<and>
           (\<forall>a. sim_procedures p' a \<noteq> sim_procedures p a \<longrightarrow>
              (\<exists>lib\<in>set (bin_lib_names main). \<exists>functions. sims lib = Some functions \<and>
                 (\<exists>imp\<in>fst ` set (bin_imports main). functions imp \<noteq> None \<and>
                    unpack_le64 (take 8 (digest (lib @ ''_'' @ imp))) = Inr a)))"
proof (cases "map_of (binaries p) (filename p)")
  case None
  then show ?thesis using assms by (simp add: resolve_imports_using_sim_procedures_def)
next
  case (Some main)
  show ?thesis
  proof (cases "stub_libs digest sims (bin_lib_names main) (p, main)")
    case (Inl e)
    then show ?thesis using assms Some by (simp add: resolve_imports_using_sim_procedures_def)
  next
    case (Inr st')
    obtain q binary' where st': "st' = (q, binary')" by (cases st')
    have p': "p' = q\<lparr>binaries := AList.update (filename p) binary' (binaries q)\<rparr>"
      using assms Some Inr st' by (simp add: resolve_imports_using_sim_procedures_def)
    let ?K = "{a. \<exists>lib\<in>set (bin_lib_names main). \<exists>functions. sims lib = Some functions \<and>
                   (\<exists>imp\<in>fst ` set (bin_imports main). functions imp \<noteq> None \<and>
                      unpack_le64 (take 8 (digest (lib @ ''_'' @ imp))) = Inr a)}"
    have "stub_frame ?K (p, main) (q, binary')"
      using stub_libs_frame [OF Inr] st' by simp
    then have bq: "binaries q = binaries p"
      and sp: "\<forall>a. a \<notin> ?K \<longrightarrow> sim_procedures q a = sim_procedures p a"
      by (simp_all add: stub_frame_def)
    have others: "\<forall>name. name \<noteq> filename p \<longrightarrow> map_of (binaries p') name = map_of (binaries p) name"
      by (simp add: p' bq update_conv')
    have keys: "\<forall>a. sim_procedures p' a \<noteq> sim_procedures p a \<longrightarrow> a \<in> ?K"
    proof (intro allI impI)
      fix a assume "sim_procedures p' a \<noteq> sim_procedures p a"
      then have ne: "sim_procedures q a \<noteq> sim_procedures p a" by (simp add: p')
      show "a \<in> ?K"
      proof (rule ccontr)
        assume "a \<notin> ?K"
        then have "sim_procedures q a = sim_procedures p a" by (rule sp [rule_format])
        with ne show False by contradiction
      qed
    qed
    then have keys': "\<forall>a. sim_procedures p' a \<noteq> sim_procedures p a \<longrightarrow>
              (\<exists>lib\<in>set (bin_lib_names main). \<exists>functions. sims lib = Some functions \<and>
                 (\<exists>imp\<in>fst ` set (bin_imports main). functions imp \<noteq> None \<and>
                    unpack_le64 (take 8 (digest (lib @ ''_'' @ imp))) = Inr a))"
      by (simp only: mem_Collect_eq)
    show ?thesis
      by (rule exI [of _ main]) (intro conjI Some others keys')
  qed
qed

theorem stubs_touch_main_only_witness:
  "\<exists>r. resolve_imports_using_sim_procedures demo_digest stub_sims stub_proj = Inr r \<and>
       map_of (binaries r) ''libc'' = Some stub_libc \<and>
       sim_procedures r 0x100F0E0D0C0B0A09 = Some ()"
proof -
  have u: "unpack_le64 (take 8 (demo_digest ''libc_puts'')) = Inr 0x100F0E0D0C0B0A09"
    by (simp add: unpack_le64_def demo_digest_def upt_rec)
  have "\<exists>r. resolve_imports_using_sim_procedures demo_digest stub_sims stub_proj = Inr r \<and>
            sim_procedures r 0x100F0E0D0C0B0A09 = Some ()"
    using u by (simp add: resolve_imports_using_sim_procedures_def stub_proj_def stub_sims_def
        stub_main_def example_binary_def init_project_def set_sim_procedure_def Let_def)
  then obtain r where r: "resolve_imports_using_sim_procedures demo_digest stub_sims stub_proj = Inr r"
    and e: "sim_procedures r 0x100F0E0D0C0B0A09 = Some ()" by blast
  have "\<forall>name. name \<noteq> filename stub_proj \<longrightarrow>
          map_of (binaries r) name = map_of (binaries stub_proj) name"
    using stubs_touch_main_only [OF r] by blast
  moreover have "''libc'' \<noteq> filename stub_proj"
    by (simp add: stub_proj_def init_project_def)
  ultimately have "map_of (binaries r) ''libc'' = map_of (binaries stub_proj) ''libc''"
    by blast
  then have "map_of (binaries r) ''libc'' = Some stub_libc"
    by (simp add: stub_proj_def)
  then show ?thesis using r e by blast
qed

lemma exports_table_some:
  "fst (fold (add_export lib ln) es rw) imp = Some a \<Longrightarrow>
   fst rw imp = Some a \<or> (imp \<in> fst ` set es \<and> bin_symbol_addr lib imp = Some a)"
proof (induction es arbitrary: rw)
  case Nil
  then show ?case by simp
next
  case (Cons e es)
  from Cons.prems
  have "fst (fold (add_export lib ln) es (add_export lib ln e rw)) imp = Some a" by simp
  then have "fst (add_export lib ln e rw) imp = Some a \<or>
             (imp \<in> fst ` set es \<and> bin_symbol_addr lib imp = Some a)"
    by (rule Cons.IH)
  then show ?case
    by (auto simp: add_export_def split: option.splits if_splits)
qed

lemma exports_table_dom:
  "fst rw imp \<noteq> None \<or> (imp \<in> fst ` set es \<and> bin_symbol_addr lib imp \<noteq> None) \<Longrightarrow>
   fst (fold (add_export lib ln) es rw) imp \<noteq> None"
proof (induction es arbitrary: rw)
  case Nil
  then show ?case by simp
next
  case (Cons e es)
  have "fst (add_export lib ln e rw) imp \<noteq> None \<or>
        (imp \<in> fst ` set es \<and> bin_symbol_addr lib imp \<noteq> None)"
    using Cons.prems by (auto simp: add_export_def split: option.splits)
  then have "fst (fold (add_export lib ln) es (add_export lib ln e rw)) imp \<noteq> None"
    by (rule Cons.IH)
  then show ?case by simp
qed

lemma exports_warnings_mono: "set (snd rw) \<subseteq> set (snd (fold (add_export lib ln) es rw))"
proof (induction es arbitrary: rw)
  case Nil
  then show ?case by simp
next
  case (Cons e es)
  have "set (snd rw) \<subseteq> set (snd (add_export lib ln e rw))"
    by (auto simp: add_export_def split: option.splits)
  also have "\<dots> \<subseteq> set (snd (fold (add_export lib ln) es (add_export lib ln e rw)))"
    by (rule Cons.IH)
  finally show ?case by simp
qed

lemma libs_table_some:
  "fst (fold (add_lib bins) lns rw) imp = Some a \<Longrightarrow>
   fst rw imp = Some a \<or>
   (\<exists>ln\<in>set lns. \<exists>lib. map_of bins ln = Some lib \<and>
      imp \<in> fst ` set (bin_exports lib) \<and> bin_symbol_addr lib imp = Some a)"
proof (induction lns arbitrary: rw)
  case Nil
  then show ?case by simp
next
  case (Cons ln lns)
  from Cons.prems
  have "fst (fold (add_lib bins) lns (add_lib bins ln rw)) imp = Some a" by simp
  then have ih: "fst (add_lib bins ln rw) imp = Some a \<or>
    (\<exists>l\<in>set lns. \<exists>lib. map_of bins l = Some lib \<and>
      imp \<in> fst ` set (bin_exports lib) \<and> bin_symbol_addr lib imp = Some a)"
    by (rule Cons.IH)
  show ?case
  proof (cases "fst (add_lib bins ln rw) imp = Some a")
    case False
    then show ?thesis using ih by auto
  next
    case True
    show ?thesis
    proof (cases "map_of bins ln")
      case None
      then show ?thesis using True by (simp add: add_lib_def)
    next
      case (Some lib)
      then have "fst (fold (add_export lib ln) (bin_exports lib) rw) imp = Some a"
        using True by (simp add: add_lib_def)
      then have "fst rw imp = Some a \<or>
                 (imp \<in> fst ` set (bin_exports lib) \<and> bin_symbol_addr lib imp = Some a)"
        by (rule exports_table_some)
      then show ?thesis using Some by auto
    qed
  qed
qed

lemma lib_table_dom_keep: "fst rw imp \<noteq> None \<Longrightarrow> fst (add_lib bins ln rw) imp \<noteq> None"
  by (cases "map_of bins ln") (simp_all add: add_lib_def exports_table_dom)

lemma libs_table_dom:
  "fst rw imp \<noteq> None \<or>
   (\<exists>ln\<in>set lns. \<exists>lib. map_of bins ln = Some lib \<and>
      imp \<in> fst ` set (bin_exports lib) \<and> bin_symbol_addr lib imp \<noteq> None) \<Longrightarrow>
   fst (fold (add_lib bins) lns rw) imp \<noteq> None"
proof (induction lns arbitrary: rw)
  case Nil
  then show ?case by simp
next
  case (Cons ln lns)
  have "fst (add_lib bins ln rw) imp \<noteq> None \<or>
        (\<exists>l\<in>set lns. \<exists>lib. map_of bins l = Some lib \<and>
           imp \<in> fst ` set (bin_exports lib) \<and> bin_symbol_addr lib imp \<noteq> None)"
  proof (cases "fst rw imp \<noteq> None")
    case True
    then show ?thesis by (simp add: lib_table_dom_keep)
  next
    case False
    then obtain l lib where l: "l \<in> set (ln # lns)" and m: "map_of bins l = Some lib"
      and e: "imp \<in> fst ` set (bin_exports lib)" and s: "bin_symbol_addr lib imp \<noteq> None"
      using Cons.prems by blast
    show ?thesis
    proof (cases "l = ln")
      case True
      then have "fst (add_lib bins ln rw) imp \<noteq> None"
        using m e s by (simp add: add_lib_def exports_table_dom)
      then show ?thesis by simp
    next
      case False
      then have "l \<in> set lns" using l by simp
      then show ?thesis using m e s by blast
    qed
  qed
  then have "fst (fold (add_lib bins) lns (add_lib bins ln rw)) imp \<noteq> None"
    by (rule Cons.IH)
  then show ?case by simp
qed

lemma libs_warnings_mono: "set (snd rw) \<subseteq> set (snd (fold (add_lib bins) lns rw))"
proof (induction lns arbitrary: rw)
  case Nil
  then show ?case by simp
next
  case (Cons ln lns)
  have "set (snd rw) \<subseteq> set (snd (add_lib bins ln rw))"
    using exports_warnings_mono by (cases "map_of bins ln") (auto simp: add_lib_def)
  also have "\<dots> \<subseteq> set (snd (fold (add_lib bins) lns (add_lib bins ln rw)))"
    by (rule Cons.IH)
  finally show ?case by simp
qed

lemma same_tables_refl: "same_tables b b"
  by (simp add: same_tables_def)

lemma same_tables_trans: "same_tables a b \<Longrightarrow> same_tables b c \<Longrightarrow> same_tables a c"
  by (simp add: same_tables_def)

lemma bins_related_refl: "bins_related bins bins"
  unfolding bins_related_def by (simp add: option.rel_refl same_tables_refl)

lemma bins_related_trans:
  assumes "bins_related a b" and "bins_related b c"
  shows "bins_related a c"
  unfolding bins_related_def
proof
  fix m
  have ab: "rel_option same_tables (map_of a m) (map_of b m)"
    and bc: "rel_option same_tables (map_of b m) (map_of c m)"
    using assms by (simp_all add: bins_related_def)
  show "rel_option same_tables (map_of a m) (map_of c m)"
  proof (cases "map_of a m")
    case None
    then show ?thesis using ab bc by (cases "map_of b m"; cases "map_of c m") simp_all
  next
    case (Some x)
    then show ?thesis using ab bc
      by (cases "map_of b m"; cases "map_of c m") (auto intro: same_tables_trans)
  qed
qed

lemma provides_related:
  assumes rel: "bins_related bins bins'" and st: "same_tables b b'"
  shows "provides bins' b' imp a \<longleftrightarrow> provides bins b imp a"
proof
  assume "provides bins' b' imp a"
  then obtain ln lib' where ln: "ln \<in> set (bin_lib_names b')" and m: "map_of bins' ln = Some lib'"
    and e: "imp \<in> fst ` set (bin_exports lib')" and ad: "bin_symbol_addr lib' imp = Some a"
    unfolding provides_def by blast
  have "rel_option same_tables (map_of bins ln) (map_of bins' ln)"
    using rel by (simp add: bins_related_def)
  then obtain lib where l: "map_of bins ln = Some lib" and t: "same_tables lib lib'"
    using m by (cases "map_of bins ln") simp_all
  have "ln \<in> set (bin_lib_names b)" using ln st by (simp add: same_tables_def)
  moreover have "imp \<in> fst ` set (bin_exports lib)" using e t by (simp add: same_tables_def)
  moreover have "bin_symbol_addr lib imp = Some a" using ad t by (simp add: same_tables_def)
  ultimately show "provides bins b imp a" unfolding provides_def using l by blast
next
  assume "provides bins b imp a"
  then obtain ln lib where ln: "ln \<in> set (bin_lib_names b)" and m: "map_of bins ln = Some lib"
    and e: "imp \<in> fst ` set (bin_exports lib)" and ad: "bin_symbol_addr lib imp = Some a"
    unfolding provides_def by blast
  have "rel_option same_tables (map_of bins ln) (map_of bins' ln)"
    using rel by (simp add: bins_related_def)
  then obtain lib' where l: "map_of bins' ln = Some lib'" and t: "same_tables lib lib'"
    using m by (cases "map_of bins' ln") simp_all
  have "ln \<in> set (bin_lib_names b')" using ln st by (simp add: same_tables_def)
  moreover have "imp \<in> fst ` set (bin_exports lib')" using e t by (simp add: same_tables_def)
  moreover have "bin_symbol_addr lib' imp = Some a" using ad t by (simp add: same_tables_def)
  ultimately show "provides bins' b' imp a" unfolding provides_def using l by blast
qed

lemma table_sound:
  assumes "fst (fold (add_lib bins) (bin_lib_names b) (Map.empty, w)) imp = Some a"
  shows "provides bins b imp a"
  using libs_table_some [OF assms] by (simp add: provides_def)

lemma table_complete:
  assumes "provides bins b imp a"
  shows "fst (fold (add_lib bins) (bin_lib_names b) (Map.empty, w)) imp \<noteq> None"
proof (rule libs_table_dom)
  obtain ln lib where "ln \<in> set (bin_lib_names b)" and "map_of bins ln = Some lib"
    and "imp \<in> fst ` set (bin_exports lib)" and "bin_symbol_addr lib imp = Some a"
    using assms unfolding provides_def by blast
  then have "\<exists>ln\<in>set (bin_lib_names b). \<exists>lib. map_of bins ln = Some lib \<and>
      imp \<in> fst ` set (bin_exports lib) \<and> bin_symbol_addr lib imp \<noteq> None"
    by (intro bexI [of _ ln] exI [of _ lib]) simp_all
  then show "fst (Map.empty, w) imp \<noteq> None \<or>
    (\<exists>ln\<in>set (bin_lib_names b). \<exists>lib. map_of bins ln = Some lib \<and>
      imp \<in> fst ` set (bin_exports lib) \<and> bin_symbol_addr lib imp \<noteq> None)"
    by (rule disjI2)
qed

lemma patch_import_tables: "same_tables (fst bw) (fst (patch_import resolved i bw))"
  by (simp add: patch_import_def resolve_import_def same_tables_def split: option.splits)

lemma patch_fold_tables: "same_tables (fst bw) (fst (fold (patch_import resolved) imps bw))"
proof (induction imps arbitrary: bw)
  case Nil
  then show ?case by (simp add: same_tables_refl)
next
  case (Cons i imps)
  have "same_tables (fst bw) (fst (patch_import resolved i bw))"
    by (rule patch_import_tables)
  moreover have "same_tables (fst (patch_import resolved i bw))
                   (fst (fold (patch_import resolved) imps (patch_import resolved i bw)))"
    by (rule Cons.IH)
  ultimately show ?case by (simp add: same_tables_trans)
qed

lemma patch_fold_warnings_mono:
  "set (snd bw) \<subseteq> set (snd (fold (patch_import resolved) imps bw))"
proof (induction imps arbitrary: bw)
  case Nil
  then show ?case by simp
next
  case (Cons i imps)
  have "set (snd bw) \<subseteq> set (snd (patch_import resolved i bw))"
    by (auto simp: patch_import_def split: option.splits)
  also have "\<dots> \<subseteq> set (snd (fold (patch_import resolved) imps (patch_import resolved i bw)))"
    by (rule Cons.IH)
  finally show ?case by simp
qed

lemma patch_fold_resolved:
  "bin_resolved (fst (fold (patch_import resolved) imps bw)) imp
   = (if imp \<in> fst ` set imps \<and> resolved imp \<noteq> None then resolved imp
      else bin_resolved (fst bw) imp)"
proof (induction imps arbitrary: bw)
  case Nil
  then show ?case by simp
next
  case (Cons i imps)
  have one: "bin_resolved (fst (patch_import resolved i bw)) imp
             = (if imp = fst i \<and> resolved imp \<noteq> None then resolved imp
                else bin_resolved (fst bw) imp)"
    by (auto simp: patch_import_def resolve_import_def split: option.splits)
  have "bin_resolved (fst (fold (patch_import resolved) (i # imps) bw)) imp
        = bin_resolved (fst (fold (patch_import resolved) imps (patch_import resolved i bw))) imp"
    by simp
  also have "\<dots> = (if imp \<in> fst ` set imps \<and> resolved imp \<noteq> None then resolved imp
      else bin_resolved (fst (patch_import resolved i bw)) imp)"
    by (rule Cons.IH)
  finally show ?case using one by auto
qed

lemma patch_fold_unresolved:
  assumes "imp \<in> fst ` set imps" and "resolved imp = None"
  shows "ImportUnresolved imp (bin_filename (fst bw))
         \<in> set (snd (fold (patch_import resolved) imps bw))"
  using assms(1)
proof (induction imps arbitrary: bw)
  case Nil
  then show ?case by simp
next
  case (Cons i imps)
  have name: "bin_filename (fst (patch_import resolved i bw)) = bin_filename (fst bw)"
    using patch_import_tables [of bw resolved i] by (simp add: same_tables_def)
  show ?case
  proof (cases "imp = fst i")
    case True
    then have "ImportUnresolved imp (bin_filename (fst bw)) \<in> set (snd (patch_import resolved i bw))"
      using assms(2) by (simp add: patch_import_def)
    then have "ImportUnresolved imp (bin_filename (fst bw))
               \<in> set (snd (fold (patch_import resolved) imps (patch_import resolved i bw)))"
      using patch_fold_warnings_mono by blast
    then show ?thesis by simp
  next
    case False
    then have "imp \<in> fst ` set imps" using Cons.prems by auto
    then have "ImportUnresolved imp (bin_filename (fst (patch_import resolved i bw)))
               \<in> set (snd (fold (patch_import resolved) imps (patch_import resolved i bw)))"
      by (rule Cons.IH)
    then show ?thesis by (simp add: name)
  qed
qed

lemma resolve_binary_tables: "same_tables b (fst (resolve_binary bins b w))"
  using patch_fold_tables [of "(b, w')" for w'] by (simp add: resolve_binary_def Let_def)

lemma resolve_binary_warnings_mono: "set w \<subseteq> set (snd (resolve_binary bins b w))"
proof -
  have "set w \<subseteq> set (snd (fold (add_lib bins) (bin_lib_names b) (Map.empty, w)))"
    using libs_warnings_mono [of "(Map.empty, w)" bins "bin_lib_names b"] by simp
  also have "\<dots> \<subseteq> set (snd (resolve_binary bins b w))"
    using patch_fold_warnings_mono
      [of "(b, snd (fold (add_lib bins) (bin_lib_names b) (Map.empty, w)))"]
    by (simp add: resolve_binary_def Let_def)
  finally show ?thesis .
qed

lemma resolve_binary_import:
  assumes "imp \<in> fst ` set (bin_imports b)"
  shows "if \<exists>a. provides bins b imp a
         then \<exists>a. provides bins b imp a \<and>
                  bin_resolved (fst (resolve_binary bins b w)) imp = Some a
         else bin_resolved (fst (resolve_binary bins b w)) imp = bin_resolved b imp \<and>
              ImportUnresolved imp (bin_filename b) \<in> set (snd (resolve_binary bins b w))"
proof -
  let ?rw = "fold (add_lib bins) (bin_lib_names b) (Map.empty, w)"
  have res: "bin_resolved (fst (resolve_binary bins b w)) imp
             = (if fst ?rw imp \<noteq> None then fst ?rw imp else bin_resolved b imp)"
    using patch_fold_resolved [of "fst ?rw" "bin_imports b" "(b, snd ?rw)" imp] assms
    by (simp add: resolve_binary_def Let_def)
  show ?thesis
  proof (cases "\<exists>a. provides bins b imp a")
    case True
    then obtain a0 where "provides bins b imp a0" by blast
    then have "fst ?rw imp \<noteq> None" by (rule table_complete)
    then obtain a where a: "fst ?rw imp = Some a" by blast
    then have "provides bins b imp a" by (rule table_sound)
    moreover have "bin_resolved (fst (resolve_binary bins b w)) imp = Some a"
      using res a by simp
    ultimately show ?thesis using True by auto
  next
    case False
    have none: "fst ?rw imp = None"
    proof (rule ccontr)
      assume "fst ?rw imp \<noteq> None"
      then obtain a where "fst ?rw imp = Some a" by blast
      then have "provides bins b imp a" by (rule table_sound)
      then show False using False by blast
    qed
    have "ImportUnresolved imp (bin_filename (fst (b, snd ?rw)))
          \<in> set (snd (fold (patch_import (fst ?rw)) (bin_imports b) (b, snd ?rw)))"
      using assms none by (rule patch_fold_unresolved)
    then have "ImportUnresolved imp (bin_filename b) \<in> set (snd (resolve_binary bins b w))"
      by (simp add: resolve_binary_def Let_def)
    moreover have "bin_resolved (fst (resolve_binary bins b w)) imp = bin_resolved b imp"
      using res none by simp
    ultimately show ?thesis using False by auto
  qed
qed

lemma resolve_one_others:
  "m \<noteq> n \<Longrightarrow> map_of (binaries (resolve_one n p)) m = map_of (binaries p) m"
  by (cases "map_of (binaries p) n") (simp_all add: resolve_one_def Let_def update_conv')

lemma resolve_one_related: "bins_related (binaries p) (binaries (resolve_one n p))"
proof (cases "map_of (binaries p) n")
  case None
  then show ?thesis by (simp add: resolve_one_def bins_related_refl)
next
  case (Some b)
  show ?thesis
    unfolding bins_related_def
  proof
    fix m
    show "rel_option same_tables (map_of (binaries p) m) (map_of (binaries (resolve_one n p)) m)"
    proof (cases "m = n")
      case True
      then show ?thesis using Some
        by (simp add: resolve_one_def Let_def update_conv' resolve_binary_tables)
    next
      case False
      then show ?thesis
        by (simp add: resolve_one_others option.rel_refl same_tables_refl)
    qed
  qed
qed

lemma resolve_one_warnings_mono: "set (warnings p) \<subseteq> set (warnings (resolve_one n p))"
  by (cases "map_of (binaries p) n")
     (simp_all add: resolve_one_def Let_def resolve_binary_warnings_mono)

lemma resolve_fold_others:
  "m \<notin> set ns \<Longrightarrow> map_of (binaries (fold resolve_one ns p)) m = map_of (binaries p) m"
  by (induction ns arbitrary: p) (simp_all add: resolve_one_others)

lemma resolve_fold_related: "bins_related (binaries p) (binaries (fold resolve_one ns p))"
proof (induction ns arbitrary: p)
  case Nil
  then show ?case by (simp add: bins_related_refl)
next
  case (Cons n ns)
  have "bins_related (binaries p) (binaries (resolve_one n p))"
    by (rule resolve_one_related)
  moreover have "bins_related (binaries (resolve_one n p))
                   (binaries (fold resolve_one ns (resolve_one n p)))"
    by (rule Cons.IH)
  ultimately show ?case by (simp add: bins_related_trans)
qed

lemma resolve_fold_warnings_mono:
  "set (warnings p) \<subseteq> set (warnings (fold resolve_one ns p))"
proof (induction ns arbitrary: p)
  case Nil
  then show ?case by simp
next
  case (Cons n ns)
  have "set (warnings p) \<subseteq> set (warnings (resolve_one n p))"
    by (rule resolve_one_warnings_mono)
  also have "\<dots> \<subseteq> set (warnings (fold resolve_one ns (resolve_one n p)))"
    by (rule Cons.IH)
  finally show ?case by simp
qed

text \<open>
  Claim C6. For every loaded image and every import of it: when a declared and loaded
  dependency exports the name with an address that resolves, the import is patched to
  the exact resolved address of such an export; otherwise it is left as it was and a
  warning is logged. The operation is total (nothing is raised), and exports whose
  lookup fails do not stand in the way of the other imports.
\<close>

theorem imports_resolved_or_warned:
  assumes dist: "distinct (map fst (binaries p))"
    and look: "map_of (binaries p) name = Some b"
    and imp: "imp \<in> fst ` set (bin_imports b)"
  shows "\<exists>b'. map_of (binaries (resolve_imports_from_libs p)) name = Some b' \<and>
           (if \<exists>a. provides (binaries p) b imp a
            then \<exists>a. provides (binaries p) b imp a \<and> bin_resolved b' imp = Some a
            else bin_resolved b' imp = bin_resolved b imp \<and>
                 ImportUnresolved imp (bin_filename b)
                   \<in> set (warnings (resolve_imports_from_libs p)))"
proof -
  have "name \<in> set (map fst (binaries p))"
    using look by (metis map_of_eq_None_iff option.distinct(1) set_map)
  then obtain xs ys where split: "map fst (binaries p) = xs @ name # ys"
    by (meson split_list)
  have nx: "name \<notin> set xs" and ny: "name \<notin> set ys"
    using dist unfolding split by auto
  let ?p1 = "fold resolve_one xs p"
  let ?p2 = "resolve_one name ?p1"
  let ?p3 = "fold resolve_one ys ?p2"
  have final: "resolve_imports_from_libs p = ?p3"
    by (simp add: resolve_imports_from_libs_def split)
  have l1: "map_of (binaries ?p1) name = Some b"
    using nx look by (simp add: resolve_fold_others)
  have rel1: "bins_related (binaries p) (binaries ?p1)"
    by (rule resolve_fold_related)
  let ?bw = "resolve_binary (binaries ?p1) b (warnings ?p1)"
  have p2b: "map_of (binaries ?p2) name = Some (fst ?bw)"
    using l1 by (simp add: resolve_one_def Let_def update_conv')
  have p2w: "warnings ?p2 = snd ?bw"
    using l1 by (simp add: resolve_one_def Let_def)
  have l3: "map_of (binaries ?p3) name = Some (fst ?bw)"
    using ny p2b by (simp add: resolve_fold_others)
  have w3: "set (snd ?bw) \<subseteq> set (warnings ?p3)"
    using resolve_fold_warnings_mono [of ?p2 ys] by (simp only: p2w)
  have pr: "\<And>a. provides (binaries ?p1) b imp a \<longleftrightarrow> provides (binaries p) b imp a"
    using rel1 same_tables_refl by (rule provides_related)
  have core: "if \<exists>a. provides (binaries ?p1) b imp a
         then \<exists>a. provides (binaries ?p1) b imp a \<and> bin_resolved (fst ?bw) imp = Some a
         else bin_resolved (fst ?bw) imp = bin_resolved b imp \<and>
              ImportUnresolved imp (bin_filename b) \<in> set (snd ?bw)"
    using imp by (rule resolve_binary_import)
  have "if \<exists>a. provides (binaries p) b imp a
         then \<exists>a. provides (binaries p) b imp a \<and> bin_resolved (fst ?bw) imp = Some a
         else bin_resolved (fst ?bw) imp = bin_resolved b imp \<and>
              ImportUnresolved imp (bin_filename b) \<in> set (warnings ?p3)"
  proof (cases "\<exists>a. provides (binaries p) b imp a")
    case True
    then have "\<exists>a. provides (binaries ?p1) b imp a" by (simp add: pr)
    then have "\<exists>a. provides (binaries ?p1) b imp a \<and> bin_resolved (fst ?bw) imp = Some a"
      using core by simp
    then have "\<exists>a. provides (binaries p) b imp a \<and> bin_resolved (fst ?bw) imp = Some a"
      by (simp add: pr)
    then show ?thesis using True by simp
  next
    case False
    then have "\<not> (\<exists>a. provides (binaries ?p1) b imp a)" by (simp add: pr)
    then have "bin_resolved (fst ?bw) imp = bin_resolved b imp \<and>
              ImportUnresolved imp (bin_filename b) \<in> set (snd ?bw)"
      using core by simp
    then show ?thesis using False w3 by auto
  qed
  then show ?thesis
    unfolding final using l3 by (intro exI [of _ "fst ?bw"] conjI)
qed

lemma res_provides_puts: "provides (binaries res_proj) res_main ''puts'' a \<longleftrightarrow> a = 0x1001234"
  by (auto simp: provides_def res_proj_def res_main_def res_libc_def example_binary_def
      init_project_def)

lemma res_provides_missing: "\<not> provides (binaries res_proj) res_main ''missing_fn'' a"
  by (auto simp: provides_def res_proj_def res_main_def res_libc_def example_binary_def
      init_project_def)

lemma res_provides_broken: "\<not> provides (binaries res_proj) res_main ''broken'' a"
  by (auto simp: provides_def res_proj_def res_main_def res_libc_def example_binary_def
      init_project_def)

theorem imports_resolved_or_warned_witness:
  "\<exists>b'. map_of (binaries (resolve_imports_from_libs res_proj)) ''main'' = Some b' \<and>
        bin_resolved b' ''puts'' = Some 0x1001234 \<and>
        bin_resolved b' ''missing_fn'' = None \<and>
        bin_resolved b' ''broken'' = None \<and>
        ImportUnresolved ''missing_fn'' ''main'' \<in> set (warnings (resolve_imports_from_libs res_proj)) \<and>
        ImportUnresolved ''broken'' ''main'' \<in> set (warnings (resolve_imports_from_libs res_proj))"
proof -
  have d: "distinct (map fst (binaries res_proj))"
    by (simp add: res_proj_def)
  have l: "map_of (binaries res_proj) ''main'' = Some res_main"
    by (simp add: res_proj_def)
  have i1: "''puts'' \<in> fst ` set (bin_imports res_main)"
    and i2: "''missing_fn'' \<in> fst ` set (bin_imports res_main)"
    and i3: "''broken'' \<in> fst ` set (bin_imports res_main)"
    by (simp_all add: res_main_def)
  have nm: "bin_filename res_main = ''main''" and r0: "bin_resolved res_main = Map.empty"
    by (simp_all add: res_main_def example_binary_def)
  obtain b1 where b1: "map_of (binaries (resolve_imports_from_libs res_proj)) ''main'' = Some b1"
    and p1: "bin_resolved b1 ''puts'' = Some 0x1001234"
    using imports_resolved_or_warned [OF d l i1] by (auto simp: res_provides_puts)
  obtain b2 where b2: "map_of (binaries (resolve_imports_from_libs res_proj)) ''main'' = Some b2"
    and p2: "bin_resolved b2 ''missing_fn'' = None"
    and w2: "ImportUnresolved ''missing_fn'' ''main'' \<in> set (warnings (resolve_imports_from_libs res_proj))"
    using imports_resolved_or_warned [OF d l i2] by (auto simp: res_provides_missing nm r0)
  obtain b3 where b3: "map_of (binaries (resolve_imports_from_libs res_proj)) ''main'' = Some b3"
    and p3: "bin_resolved b3 ''broken'' = None"
    and w3: "ImportUnresolved ''broken'' ''main'' \<in> set (warnings (resolve_imports_from_libs res_proj))"
    using imports_resolved_or_warned [OF d l i3] by (auto simp: res_provides_broken nm r0)
  have "b2 = b1" and "b3 = b1" using b1 b2 b3 by simp_all
  then show ?thesis using b1 p1 p2 p3 w2 w3 by blast
qed

section \<open>Properties of the reference crawler\<close>

lemma demo_crawl:
  "\<exists>r. make_refs 3 demo_block demo_perm () crawl_proj = Some (Inr r) \<and>
       analyzed r = [0x1000, 0x2000, 0x6000] \<and>
       remaining_addrs r = [] \<and>
       memory_refs_from r 0x1000 = Some [Addr 0x2000, Addr 0x3000, Addr 0x4000, Addr 0x2000] \<and>
       data_writes_from r = Map.empty \<and>
       data_writes_to r 0x5000 = Some [Sized 0x1000 2, Addr 0x1000] \<and>
       data_writes_to r 0x5001 = Some [Addr 0x1000] \<and>
       crawl_warnings r = [BlockFailed 0x6000]"
  by (simp add: make_refs_def crawl_proj_def init_project_def example_binary_def
      init_crawl_def numeral_3_eq_3 crawl_step_def demo_block_def
      demo_perm_def concrete_def track_read_def track_write_def track_code_def
      track_memref_def dd_append_def Let_def upto.simps)

lemma track_read_fields [simp]:
  "remaining_addrs (track_read r c) = remaining_addrs c"
  "sim_blocks (track_read r c) = sim_blocks c"
  "analyzed (track_read r c) = analyzed c"
  "crawl_warnings (track_read r c) = crawl_warnings c"
  "data_writes_from (track_read r c) = data_writes_from c"
  by (simp_all add: track_read_def Let_def split: option.splits)

lemma track_write_fields [simp]:
  "remaining_addrs (track_write r c) = remaining_addrs c"
  "sim_blocks (track_write r c) = sim_blocks c"
  "analyzed (track_write r c) = analyzed c"
  "crawl_warnings (track_write r c) = crawl_warnings c"
  "data_writes_from (track_write r c) = data_writes_from c"
  by (simp_all add: track_write_def Let_def split: option.splits)

lemma track_code_fields [simp]:
  "analyzed (track_code st r c) = analyzed c"
  "crawl_warnings (track_code st r c) = crawl_warnings c"
  "data_writes_from (track_code st r c) = data_writes_from c"
  by (simp_all add: track_code_def Let_def split: option.splits)

lemma track_memref_fields [simp]:
  "analyzed (track_memref perm st r c) = analyzed c"
  "crawl_warnings (track_memref perm st r c) = crawl_warnings c"
  "data_writes_from (track_memref perm st r c) = data_writes_from c"
  by (simp_all add: track_memref_def Let_def split: option.splits)

lemma seen_inv_read: "seen_inv c \<Longrightarrow> seen_inv (track_read r c)"
  by (simp add: seen_inv_def)

lemma seen_inv_write: "seen_inv c \<Longrightarrow> seen_inv (track_write r c)"
  by (simp add: seen_inv_def)

lemma seen_inv_queue:
  assumes "seen_inv c" and "t \<notin> sim_blocks c"
  shows "distinct (map fst (remaining_addrs c @ [(t, st)]) @ analyzed c) \<and>
         set (map fst (remaining_addrs c @ [(t, st)])) \<union> set (analyzed c)
           \<subseteq> insert t (sim_blocks c)"
  using assms unfolding seen_inv_def by auto

lemma seen_inv_code: "seen_inv c \<Longrightarrow> seen_inv (track_code st r c)"
proof (cases "ref_addr r")
  case None
  assume "seen_inv c"
  then show ?thesis using None by (simp add: track_code_def)
next
  case (Some t)
  assume inv: "seen_inv c"
  show ?thesis
  proof (cases "t \<in> sim_blocks c")
    case True
    then show ?thesis using inv Some by (simp add: track_code_def Let_def seen_inv_def)
  next
    case False
    then show ?thesis
      using seen_inv_queue [OF inv False, of st] Some
      by (simp add: track_code_def Let_def seen_inv_def)
  qed
qed

lemma seen_inv_memref: "seen_inv c \<Longrightarrow> seen_inv (track_memref perm st r c)"
proof (cases "ref_addr r")
  case None
  assume "seen_inv c"
  then show ?thesis using None by (simp add: track_memref_def)
next
  case (Some t)
  assume inv: "seen_inv c"
  show ?thesis
  proof (cases "t \<in> sim_blocks c")
    case True
    then show ?thesis using inv Some
      by (simp add: track_memref_def Let_def seen_inv_def split: option.splits)
  next
    case False
    then show ?thesis
      using seen_inv_queue [OF inv False, of st] inv Some
      by (simp add: track_memref_def Let_def seen_inv_def split: option.splits)
  qed
qed

lemma seen_inv_fold:
  assumes "\<And>r c. seen_inv c \<Longrightarrow> seen_inv (f r c)"
  shows "seen_inv c \<Longrightarrow> seen_inv (fold f rs c)"
  by (induction rs arbitrary: c) (simp_all add: assms)

lemma fold_analyzed:
  assumes "\<And>r c. analyzed (f r c) = analyzed c"
  shows "analyzed (fold f rs c) = analyzed c"
  by (induction rs arbitrary: c) (simp_all add: assms)

lemma seen_inv_block:
  assumes "seen_inv c1"
  shows "seen_inv (fold (track_memref perm (out_state s)) (mem_refs s)
           (fold (track_code (out_state s)) (code_refs s)
              (fold track_write (mem_writes s) (fold track_read (mem_reads s) c1))))"
  by (intro seen_inv_fold seen_inv_memref seen_inv_code seen_inv_write seen_inv_read assms)

lemma analyzed_block:
  "analyzed (fold (track_memref perm (out_state s)) (mem_refs s)
           (fold (track_code (out_state s)) (code_refs s)
              (fold track_write (mem_writes s) (fold track_read (mem_reads s) c1))))
   = analyzed c1"
  by (simp add: fold_analyzed)

lemma seen_inv_crawl_inv: "seen_inv c \<Longrightarrow> crawl_inv c"
  by (simp add: seen_inv_def crawl_inv_def)

lemma popped_distinct:
  assumes "distinct (map fst wl @ an)" and "wl \<noteq> []"
  shows "distinct (map fst (butlast wl) @ an @ [fst (last wl)])"
proof -
  have "wl = butlast wl @ [last wl]" using assms(2) by simp
  then have "map fst wl = map fst (butlast wl) @ [fst (last wl)]"
    by (metis list.simps(8,9) map_append)
  then show ?thesis using assms(1) by auto
qed

lemma popped_set:
  assumes "wl \<noteq> []"
  shows "set (map fst (butlast wl)) \<union> set (an @ [fst (last wl)]) = set (map fst wl) \<union> set an"
proof -
  have "wl = butlast wl @ [last wl]" using assms by simp
  then have "map fst wl = map fst (butlast wl) @ [fst (last wl)]"
    by (metis list.simps(8,9) map_append)
  then show ?thesis by auto
qed

lemma crawl_step_inv:
  assumes inv: "crawl_inv c"
  shows "crawl_inv (crawl_step sim_block perm c)"
proof (cases "remaining_addrs c = []")
  case True
  then show ?thesis using inv by (simp add: crawl_step_def)
next
  case False
  obtain a st where la: "last (remaining_addrs c) = (a, st)" by (cases "last (remaining_addrs c)")
  let ?c0 = "c\<lparr>remaining_addrs := butlast (remaining_addrs c), analyzed := analyzed c @ [a]\<rparr>"
  have d0: "distinct (map fst (remaining_addrs ?c0) @ analyzed ?c0)"
    using popped_distinct [of "remaining_addrs c" "analyzed c"] inv False la
    by (simp add: crawl_inv_def)
  have s0: "set (map fst (remaining_addrs ?c0)) \<union> set (analyzed ?c0)
            = set (map fst (remaining_addrs c)) \<union> set (analyzed c)"
    using popped_set [OF False, of "analyzed c"] la by simp
  have a_in: "a \<in> set (map fst (remaining_addrs c))"
    using False la by (metis fst_conv image_eqI last_in_set list.set_map)
  have first: "analyzed c = [] \<and> length (remaining_addrs c) = 1 \<Longrightarrow>
               set (map fst (remaining_addrs c)) \<union> set (analyzed c) = {a}"
  proof -
    assume h: "analyzed c = [] \<and> length (remaining_addrs c) = 1"
    then obtain x where "remaining_addrs c = [x]"
      by (cases "remaining_addrs c") auto
    then show ?thesis using la h by simp
  qed
  show ?thesis
  proof (cases "sim_block a st")
    case None
    have step: "crawl_step sim_block perm c = ?c0\<lparr>crawl_warnings := crawl_warnings ?c0 @ [BlockFailed a]\<rparr>"
      using False la None by (simp add: crawl_step_def)
    have "set (map fst (remaining_addrs c)) \<union> set (analyzed c) \<subseteq> sim_blocks c \<or>
          butlast (remaining_addrs c) = []"
      using inv False unfolding crawl_inv_def
      by (metis butlast.simps(2) length_0_conv length_Suc_conv One_nat_def)
    then show ?thesis
      unfolding step crawl_inv_def using d0 s0 by auto
  next
    case (Some s)
    let ?c1 = "?c0\<lparr>sim_blocks := insert a (sim_blocks ?c0)\<rparr>"
    have step: "crawl_step sim_block perm c =
        fold (track_memref perm (out_state s)) (mem_refs s)
           (fold (track_code (out_state s)) (code_refs s)
              (fold track_write (mem_writes s) (fold track_read (mem_reads s) ?c1)))"
      using False la Some by (simp add: crawl_step_def Let_def)
    have "set (map fst (remaining_addrs c)) \<union> set (analyzed c) \<subseteq> insert a (sim_blocks c)"
      using inv False first unfolding crawl_inv_def by auto
    then have "seen_inv ?c1"
      unfolding seen_inv_def using d0 s0 by auto
    then show ?thesis
      unfolding step by (intro seen_inv_crawl_inv seen_inv_block)
  qed
qed

lemma crawl_inv_init: "crawl_inv (init_crawl e st0)"
  by (simp add: crawl_inv_def init_crawl_def)

lemma crawl_inv_iter: "crawl_inv ((crawl_step sim_block perm ^^ n) (init_crawl e st0))"
  by (induction n) (simp_all add: crawl_inv_init crawl_step_inv)

lemma crawl_loop_iter:
  "crawl_loop n sim_block perm c = Some r \<Longrightarrow> r = (crawl_step sim_block perm ^^ n) c"
proof (induction n arbitrary: c)
  case 0
  then show ?case by (simp split: if_splits)
next
  case (Suc n)
  show ?case
  proof (cases "remaining_addrs c = []")
    case True
    have idle: "\<And>k. (crawl_step sim_block perm ^^ k) c = c"
    proof -
      fix k show "(crawl_step sim_block perm ^^ k) c = c"
        by (induction k) (simp_all add: crawl_step_def True)
    qed
    show ?thesis using Suc.prems True idle [of "Suc n"] by simp
  next
    case False
    then have "crawl_loop n sim_block perm (crawl_step sim_block perm c) = Some r"
      using Suc.prems by simp
    then have "r = (crawl_step sim_block perm ^^ n) (crawl_step sim_block perm c)"
      by (rule Suc.IH)
    then show ?thesis by (simp add: funpow_swap1)
  qed
qed

lemma make_refs_returned:
  assumes "make_refs n sim_block perm st0 p = Some (Inr r)"
  shows "crawl_loop n sim_block perm (init_crawl (entry p) st0) = Some r"
proof (cases "map_of (binaries p) (filename p)")
  case None
  then show ?thesis using assms by (simp add: make_refs_def)
next
  case (Some b)
  then show ?thesis using assms by (auto simp add: make_refs_def)
qed



lemma crawl_step_analyzed:
  assumes "remaining_addrs c \<noteq> []"
  shows "analyzed (crawl_step sim_block perm c) = analyzed c @ [fst (last (remaining_addrs c))]"
proof -
  obtain a st where la: "last (remaining_addrs c) = (a, st)" by (cases "last (remaining_addrs c)")
  show ?thesis
  proof (cases "sim_block a st")
    case None
    then show ?thesis using assms la by (simp add: crawl_step_def)
  next
    case (Some s)
    then show ?thesis using assms la by (simp add: crawl_step_def Let_def analyzed_block)
  qed
qed




lemma fold_writes_from:
  assumes "\<And>r c. data_writes_from (f r c) = data_writes_from c"
  shows "data_writes_from (fold f rs c) = data_writes_from c"
  by (induction rs arbitrary: c) (simp_all add: assms)

lemma data_writes_from_block:
  "data_writes_from (fold (track_memref perm st) ms
           (fold (track_code st) cs (fold track_write ws (fold track_read rs c1))))
   = data_writes_from c1"
  by (simp add: fold_writes_from)

lemma data_writes_from_step:
  "data_writes_from (crawl_step sim_block perm c) = data_writes_from c"
proof (cases "remaining_addrs c = []")
  case True
  then show ?thesis by (simp add: crawl_step_def)
next
  case False
  obtain a st where la: "last (remaining_addrs c) = (a, st)" by (cases "last (remaining_addrs c)")
  show ?thesis
    using False la
    by (cases "sim_block a st") (simp_all add: crawl_step_def Let_def data_writes_from_block)
qed

lemma track_memref_policy:
  assumes "ref_addr r = Some t"
  shows "track_memref perm st r c
         = c\<lparr>remaining_addrs :=
                (if t \<notin> sim_blocks c \<and> (\<exists>flags. perm t = Some flags \<and> odd flags)
                 then remaining_addrs c @ [(t, st)] else remaining_addrs c),
              sim_blocks :=
                (if t \<notin> sim_blocks c \<and> (\<exists>flags. perm t = Some flags \<and> odd flags)
                 then insert t (sim_blocks c) else sim_blocks c),
              memory_refs_to := dd_append (memory_refs_to c) t (Addr (ref_inst r)),
              memory_refs_from := dd_append (memory_refs_from c) (ref_inst r) (Addr t)\<rparr>"
proof (cases "perm t")
  case None
  then show ?thesis using assms by (simp add: track_memref_def Let_def)
next
  case (Some flags)
  have "flags AND 1 \<noteq> 0 \<longleftrightarrow> odd flags"
    by (simp add: and_one_eq odd_iff_mod_2_eq_one)
  then show ?thesis using assms Some by (simp add: track_memref_def Let_def)
qed

lemma crawl_step_block:
  assumes "remaining_addrs c = wl @ [(a, st)]" and "sim_block a st = Some s"
  shows "crawl_step sim_block perm c
         = fold (track_memref perm (out_state s)) (mem_refs s)
             (fold (track_code (out_state s)) (code_refs s)
                (fold track_write (mem_writes s)
                   (fold track_read (mem_reads s)
                      (c\<lparr>remaining_addrs := wl, analyzed := analyzed c @ [a],
                          sim_blocks := insert a (sim_blocks c)\<rparr>))))"
  using assms by (simp add: crawl_step_def Let_def)

lemma crawl_step_first_memrefs:
  assumes "remaining_addrs c = wl @ [(a, st)]" and "sim_block a st = Some s"
  shows "crawl_step (first_memrefs sim_block k) perm c
         = fold (track_memref perm (out_state s)) (take k (mem_refs s))
             (fold (track_code (out_state s)) (code_refs s)
                (fold track_write (mem_writes s)
                   (fold track_read (mem_reads s)
                      (c\<lparr>remaining_addrs := wl, analyzed := analyzed c @ [a],
                          sim_blocks := insert a (sim_blocks c)\<rparr>))))"
proof -
  have "first_memrefs sim_block k a st = Some (s\<lparr>mem_refs := take k (mem_refs s)\<rparr>)"
    using assms(2) by (simp add: first_memrefs_def)
  with assms(1) have "crawl_step (first_memrefs sim_block k) perm c
         = fold (track_memref perm (out_state (s\<lparr>mem_refs := take k (mem_refs s)\<rparr>)))
             (mem_refs (s\<lparr>mem_refs := take k (mem_refs s)\<rparr>))
             (fold (track_code (out_state (s\<lparr>mem_refs := take k (mem_refs s)\<rparr>)))
                (code_refs (s\<lparr>mem_refs := take k (mem_refs s)\<rparr>))
                (fold track_write (mem_writes (s\<lparr>mem_refs := take k (mem_refs s)\<rparr>))
                   (fold track_read (mem_reads (s\<lparr>mem_refs := take k (mem_refs s)\<rparr>))
                      (c\<lparr>remaining_addrs := wl, analyzed := analyzed c @ [a],
                          sim_blocks := insert a (sim_blocks c)\<rparr>))))"
    by (rule crawl_step_block)
  then show ?thesis by simp
qed

text \<open>
  Claim C1. Take an iteration of the crawl that analyzes a block \<open>s\<close>, and the \<open>k\<close>-th
  memory reference of \<open>s\<close>, with a concrete target \<open>t\<close>, reported at instruction \<open>i\<close>.
  Processing that access appends \<open>t\<close> to the worklist if and only if \<open>t\<close> is not in the
  discovered set at that moment, is present in the permission view and has the
  executable bit (bit 0) set there; then \<open>t\<close> joins the discovered set. Otherwise the
  worklist and the discovered set are unchanged. Either way \<open>memory_refs_to[t]\<close>
  receives \<open>i\<close> and \<open>memory_refs_from[i]\<close> receives \<open>t\<close>, and nothing else changes. The
  iteration is the one that has processed all memory references of \<open>s\<close>.
\<close>

theorem memref_queue_policy:
  fixes sim_block :: "int \<Rightarrow> 'st \<Rightarrow> 'st sim_irsb option"
  assumes "remaining_addrs c = wl @ [(a, st)]" and "sim_block a st = Some s"
    and "k < length (mem_refs s)" and "ref_addr (mem_refs s ! k) = Some t"
  shows "(let pre = crawl_step (first_memrefs sim_block k) perm c;
              post = crawl_step (first_memrefs sim_block (Suc k)) perm c;
              queue = (t \<notin> sim_blocks pre \<and> (\<exists>flags. perm t = Some flags \<and> odd flags))
          in post = pre\<lparr>remaining_addrs :=
                           (if queue then remaining_addrs pre @ [(t, out_state s)]
                            else remaining_addrs pre),
                         sim_blocks :=
                           (if queue then insert t (sim_blocks pre) else sim_blocks pre),
                         memory_refs_to :=
                           dd_append (memory_refs_to pre) t (Addr (ref_inst (mem_refs s ! k))),
                         memory_refs_from :=
                           dd_append (memory_refs_from pre) (ref_inst (mem_refs s ! k)) (Addr t)\<rparr>) \<and>
         crawl_step (first_memrefs sim_block (length (mem_refs s))) perm c
           = crawl_step sim_block perm c"
proof -
  let ?base = "fold (track_code (out_state s)) (code_refs s)
                (fold track_write (mem_writes s)
                   (fold track_read (mem_reads s)
                      (c\<lparr>remaining_addrs := wl, analyzed := analyzed c @ [a],
                          sim_blocks := insert a (sim_blocks c)\<rparr>)))"
  let ?pre = "crawl_step (first_memrefs sim_block k) perm c"
  let ?post = "crawl_step (first_memrefs sim_block (Suc k)) perm c"
  have pre: "?pre = fold (track_memref perm (out_state s)) (take k (mem_refs s)) ?base"
    using assms(1,2) by (rule crawl_step_first_memrefs)
  have "take (Suc k) (mem_refs s) = take k (mem_refs s) @ [mem_refs s ! k]"
    using assms(3) by (rule take_Suc_conv_app_nth)
  then have "?post = fold (track_memref perm (out_state s)) (take k (mem_refs s) @ [mem_refs s ! k]) ?base"
    using crawl_step_first_memrefs
      [where sim_block = sim_block and k = "Suc k" and perm = perm and c = c and wl = wl
         and a = a and st = st and s = s] assms(1,2)
    by simp
  then have post: "?post = track_memref perm (out_state s) (mem_refs s ! k) ?pre"
    unfolding pre by simp
  have one: "(let pre = ?pre; post = ?post;
              queue = (t \<notin> sim_blocks pre \<and> (\<exists>flags. perm t = Some flags \<and> odd flags))
          in post = pre\<lparr>remaining_addrs :=
                           (if queue then remaining_addrs pre @ [(t, out_state s)]
                            else remaining_addrs pre),
                         sim_blocks :=
                           (if queue then insert t (sim_blocks pre) else sim_blocks pre),
                         memory_refs_to :=
                           dd_append (memory_refs_to pre) t (Addr (ref_inst (mem_refs s ! k))),
                         memory_refs_from :=
                           dd_append (memory_refs_from pre) (ref_inst (mem_refs s ! k)) (Addr t)\<rparr>)"
    unfolding Let_def post by (rule track_memref_policy [OF assms(4)])
  have "crawl_step (first_memrefs sim_block (length (mem_refs s))) perm c
           = crawl_step sim_block perm c"
    using crawl_step_first_memrefs
      [where sim_block = sim_block and k = "length (mem_refs s)" and perm = perm and c = c
         and wl = wl and a = a and st = st and s = s]
      crawl_step_block
      [where sim_block = sim_block and perm = perm and c = c and wl = wl and a = a
         and st = st and s = s]
      assms(1,2)
    by simp
  with one show ?thesis by (rule conjI)
qed

theorem memref_queue_policy_witness:
  "remaining_addrs (crawl_step (first_memrefs demo_block 0) demo_perm (init_crawl 0x1000 ())) = [] \<and>
   remaining_addrs (crawl_step (first_memrefs demo_block 1) demo_perm (init_crawl 0x1000 ()))
     = [(0x2000, ())] \<and>
   remaining_addrs (crawl_step (first_memrefs demo_block 2) demo_perm (init_crawl 0x1000 ()))
     = [(0x2000, ())] \<and>
   remaining_addrs (crawl_step (first_memrefs demo_block 3) demo_perm (init_crawl 0x1000 ()))
     = [(0x2000, ())] \<and>
   remaining_addrs (crawl_step demo_block demo_perm (init_crawl 0x1000 ())) = [(0x2000, ())] \<and>
   memory_refs_from (crawl_step demo_block demo_perm (init_crawl 0x1000 ())) 0x1000
     = Some [Addr 0x2000, Addr 0x3000, Addr 0x4000, Addr 0x2000]"
proof -
  let ?c = "init_crawl 0x1000 () :: unit crawl"
  let ?s = "the (demo_block 0x1000 ())"
  have h1: "remaining_addrs ?c = [] @ [(0x1000, ())]" by (simp add: init_crawl_def)
  have h2: "demo_block 0x1000 () = Some ?s" by (simp add: demo_block_def)
  have h3: "0 < length (mem_refs ?s)" by (simp add: demo_block_def)
  have h4: "ref_addr (mem_refs ?s ! 0) = Some 0x2000" by (simp add: demo_block_def concrete_def)
  have pre: "remaining_addrs (crawl_step (first_memrefs demo_block 0) demo_perm ?c) = []"
    and seen: "sim_blocks (crawl_step (first_memrefs demo_block 0) demo_perm ?c) = {0x1000}"
    by (simp_all add: first_memrefs_def init_crawl_def crawl_step_def demo_block_def
        concrete_def track_write_def dd_append_def Let_def upto.simps)
  have flags: "demo_perm 0x2000 = Some 5" by (simp add: demo_perm_def)
  have "remaining_addrs (crawl_step (first_memrefs demo_block (Suc 0)) demo_perm ?c)
        = [(0x2000, ())]"
    using memref_queue_policy
      [where sim_block = demo_block and c = "?c" and wl = "[]" and a = "0x1000" and st = "()"
         and s = "?s" and k = 0 and t = "0x2000" and perm = demo_perm]
      h1 h2 h3 h4 pre seen flags
    by (simp add: Let_def)
  then have one: "remaining_addrs (crawl_step (first_memrefs demo_block 1) demo_perm ?c)
        = [(0x2000, ())]"
    by simp
  have rest: "remaining_addrs (crawl_step (first_memrefs demo_block 2) demo_perm ?c) = [(0x2000, ())]"
    "remaining_addrs (crawl_step (first_memrefs demo_block 3) demo_perm ?c) = [(0x2000, ())]"
    "remaining_addrs (crawl_step demo_block demo_perm ?c) = [(0x2000, ())]"
    "memory_refs_from (crawl_step demo_block demo_perm ?c) 0x1000
       = Some [Addr 0x2000, Addr 0x3000, Addr 0x4000, Addr 0x2000]"
    by (simp_all add: first_memrefs_def init_crawl_def crawl_step_def demo_block_def
        demo_perm_def concrete_def track_write_def track_memref_def dd_append_def Let_def
        upto.simps numeral_2_eq_2 numeral_3_eq_3)
  show ?thesis using pre one rest by (intro conjI)
qed

text \<open>
  Claim C3. A write at instruction \<open>i\<close> to \<open>s\<close> bytes at \<open>t\<close> is to put \<open>(t, s)\<close> into
  \<open>data_writes_from[i]\<close> and \<open>i\<close> into \<open>data_writes_to[b]\<close> for every byte \<open>b\<close>, as the
  read loop does for its tables. The write loop never writes \<open>data_writes_from\<close>: no
  iteration of the crawl does, so the table is empty at every moment. A write at
  instruction \<open>0x1000\<close> to the two bytes at \<open>0x5000\<close> puts the pair \<open>(0x1000, 2)\<close> into
  \<open>data_writes_to[0x5000]\<close> instead, before the instruction address itself.
\<close>

theorem writes_from_never_recorded:
  "data_writes_from ((crawl_step sim_block perm ^^ n) (init_crawl e st0)) = Map.empty \<and>
   (\<exists>r. make_refs 3 demo_block demo_perm () crawl_proj = Some (Inr r) \<and>
        data_writes_from r = Map.empty \<and>
        data_writes_to r 0x5000 = Some [Sized 0x1000 2, Addr 0x1000] \<and>
        data_writes_to r 0x5001 = Some [Addr 0x1000])"
proof -
  have "data_writes_from ((crawl_step sim_block perm ^^ n) (init_crawl e st0)) = Map.empty"
    by (induction n) (simp_all add: data_writes_from_step init_crawl_def)
  then show ?thesis using demo_crawl by blast
qed

text \<open>
  Claim C4. After any number of iterations, no address occurs twice among the
  addresses on the worklist and the addresses already handed to \<^verbatim>\<open>sim_block\<close>: an
  address is analyzed at most once and is never queued again, the entry point and
  addresses whose analysis failed included. Here \<open>analyzed\<close> is the trace of the
  addresses popped and handed to \<^verbatim>\<open>sim_block\<close>: each iteration that finds the worklist
  not empty adds the popped address to it.
\<close>

theorem crawl_never_revisits:
  "distinct (map fst (remaining_addrs ((crawl_step sim_block perm ^^ n) (init_crawl e st0)))
             @ analyzed ((crawl_step sim_block perm ^^ n) (init_crawl e st0))) \<and>
   (\<forall>r. make_refs n sim_block perm st0 p = Some (Inr r) \<longrightarrow> distinct (analyzed r)) \<and>
   (\<forall>c. remaining_addrs c \<noteq> [] \<longrightarrow>
        analyzed (crawl_step sim_block perm c) = analyzed c @ [fst (last (remaining_addrs c))])"
proof -
  have inv: "crawl_inv ((crawl_step sim_block perm ^^ n) (init_crawl e st0))"
    by (rule crawl_inv_iter)
  then have d: "distinct (map fst (remaining_addrs ((crawl_step sim_block perm ^^ n) (init_crawl e st0)))
             @ analyzed ((crawl_step sim_block perm ^^ n) (init_crawl e st0)))"
    by (simp add: crawl_inv_def)
  have m: "\<forall>r. make_refs n sim_block perm st0 p = Some (Inr r) \<longrightarrow> distinct (analyzed r)"
  proof (intro allI impI)
    fix r assume "make_refs n sim_block perm st0 p = Some (Inr r)"
    then have "crawl_loop n sim_block perm (init_crawl (entry p) st0) = Some r"
      by (rule make_refs_returned)
    then have "r = (crawl_step sim_block perm ^^ n) (init_crawl (entry p) st0)"
      by (rule crawl_loop_iter)
    moreover have "crawl_inv ((crawl_step sim_block perm ^^ n) (init_crawl (entry p) st0))"
      by (rule crawl_inv_iter)
    ultimately show "distinct (analyzed r)" by (simp add: crawl_inv_def)
  qed
  have t: "\<forall>c. remaining_addrs c \<noteq> [] \<longrightarrow>
        analyzed (crawl_step sim_block perm c) = analyzed c @ [fst (last (remaining_addrs c))]"
    by (intro allI impI) (rule crawl_step_analyzed)
  show ?thesis using d m t by (intro conjI)
qed

theorem crawl_never_revisits_witness:
  "(\<exists>r. make_refs 3 demo_block demo_perm () crawl_proj = Some (Inr r) \<and>
        analyzed r = [0x1000, 0x2000, 0x6000] \<and> distinct (analyzed r)) \<and>
   remaining_addrs (init_crawl 0x1000 () :: unit crawl) \<noteq> [] \<and>
   analyzed (crawl_step demo_block demo_perm (init_crawl 0x1000 ())) = [0x1000]"
proof -
  note t = crawl_never_revisits
      [where sim_block = demo_block and perm = demo_perm and n = 3 and p = crawl_proj
         and ?st0.0 = "()"]
  obtain r where r: "make_refs 3 demo_block demo_perm () crawl_proj = Some (Inr r)"
    and a: "analyzed r = [0x1000, 0x2000, 0x6000]"
    using demo_crawl by blast
  have "\<forall>r. make_refs 3 demo_block demo_perm () crawl_proj = Some (Inr r) \<longrightarrow> distinct (analyzed r)"
    using t by (rule conjunct2 [THEN conjunct1])
  then have "distinct (analyzed r)" using r by blast
  then have first: "\<exists>r. make_refs 3 demo_block demo_perm () crawl_proj = Some (Inr r) \<and>
        analyzed r = [0x1000, 0x2000, 0x6000] \<and> distinct (analyzed r)"
    using r a by blast
  have ne: "remaining_addrs (init_crawl 0x1000 () :: unit crawl) \<noteq> []"
    by (simp add: init_crawl_def)
  have "\<forall>c. remaining_addrs c \<noteq> [] \<longrightarrow>
        analyzed (crawl_step demo_block demo_perm c) = analyzed c @ [fst (last (remaining_addrs c))]"
    using t by (rule conjunct2 [THEN conjunct2])
  then have "analyzed (crawl_step demo_block demo_perm (init_crawl 0x1000 ()))
        = analyzed (init_crawl 0x1000 () :: unit crawl) @ [fst (last (remaining_addrs (init_crawl 0x1000 () :: unit crawl)))]"
    using ne by blast
  then have popped: "analyzed (crawl_step demo_block demo_perm (init_crawl 0x1000 ())) = [0x1000]"
    by (simp add: init_crawl_def)
  show ?thesis using first ne popped by (intro conjI)
qed



end
